theory Spec2Isabelle
  imports Main "HOL-Library.Sublist" "HOL-Library.Multiset" "HOL-Library.Word"
begin

section \<open>Errors\<close>

text \<open>
  A thrown JavaScript \<^verbatim>\<open>Error\<close> object, identified by its \<^verbatim>\<open>message\<close>.
\<close>

datatype error = Error string

fun message :: "error \<Rightarrow> string" where
  "message (Error m) = m"

section \<open>Numbers\<close>

text \<open>
  A JavaScript \<^verbatim>\<open>number\<close> is a binary64 floating-point value. The numbers in play here
  are transaction counts and nonces, that is integers, so a number is modelled by the
  integer it denotes, and only the operations of the source are modelled: comparison
  and \<^verbatim>\<open>Math.max\<close>, which are exact, and \<^verbatim>\<open>+\<close>, which rounds the exact sum to the
  nearest value with a significand of 53 bits, ties to the even significand. From
  \<open>2 ^ 53\<close> on not every integer is such a value: \<^verbatim>\<open>2 ** 53 + 1\<close> is \<^verbatim>\<open>2 ** 53\<close>.
  (Magnitudes from \<open>2 ^ 1024\<close> on, where binary64 has only \<^verbatim>\<open>Infinity\<close>, and values
  that are not integers are outside the model.)
\<close>

fun bitLength :: "nat \<Rightarrow> nat" where
  "bitLength n = (if n = 0 then 0 else Suc (bitLength (n div 2)))"

declare bitLength.simps [simp del]

definition binary64 :: "int \<Rightarrow> int" where
  "binary64 x =
     (let a = nat \<bar>x\<bar>; e = bitLength a
      in if e \<le> 53 then x
         else (let ulp = 2 ^ (e - 53); q = a div ulp; rem = a mod ulp;
                   q' = (if 2 * rem < ulp \<or> (2 * rem = ulp \<and> even q) then q else q + 1)
               in sgn x * int (q' * ulp)))"

text \<open>\<^verbatim>\<open>x + y\<close> on numbers.\<close>

definition js_plus :: "int \<Rightarrow> int \<Rightarrow> int" where
  "js_plus x y = binary64 (x + y)"

text \<open>\<^verbatim>\<open>Number.isSafeInteger\<close>: the integers of magnitude at most \<open>2 ^ 53 - 1\<close>.\<close>

definition isSafeInteger :: "int \<Rightarrow> bool" where
  "isSafeInteger x = (\<bar>x\<bar> \<le> 2 ^ 53 - 1)"

section \<open>NonceManager (wallet operations, backend/bot pattern)\<close>

text \<open>
  \<^verbatim>\<open>
  class NonceManager {
    private nonces: Map<string, number> = new Map();
    private locks: Map<string, Promise<void>> = new Map();

    async getNextNonce(client: PublicClient, address: string): Promise<number> {
      const existing = this.locks.get(address);
      if (existing) await existing;

      let resolve: () => void;
      this.locks.set(address, new Promise(r => resolve = r));

      try {
        const networkNonce = await client.getTransactionCount({ address, blockTag: 'pending' });
        const lastUsed = this.nonces.get(address) ?? -1;
        const nonce = Math.max(networkNonce, lastUsed + 1);
        this.nonces.set(address, nonce);
        return nonce;
      } finally {
        resolve!();
        this.locks.delete(address);
      }
    }

    reset(address: string) { this.nonces.delete(address); }
  }
  \<close>

  JavaScript runs one piece of code at a time and switches between calls only at an
  \<^verbatim>\<open>await\<close>. A call of \<^verbatim>\<open>getNextNonce\<close> is therefore a sequence of at most three atomic
  pieces: from the call to its first suspension, from the wake-up after
  \<^verbatim>\<open>await existing\<close> to the suspension on the network query, and from the answer of the
  network query to the end of the \<^verbatim>\<open>finally\<close> block. The model has one event for each
  piece; a schedule is a list of events, and concurrency is every interleaving of them.
  Nonces are numbers as above: \<^verbatim>\<open>lastUsed + 1\<close> is \<open>js_plus lastUsed 1\<close>.
\<close>

type_synonym address = string
type_synonym promise = nat

text \<open>Where a call of \<^verbatim>\<open>getNextNonce\<close> stands.\<close>

datatype call =
    AwaitLock address promise   \<comment> \<open>suspended in \<^verbatim>\<open>await existing\<close>\<close>
  | AwaitNet address promise    \<comment> \<open>inside \<^verbatim>\<open>try\<close>, suspended on the network query; the promise is the one its \<^verbatim>\<open>resolve\<close> settles\<close>
  | Returned address int        \<comment> \<open>the call's promise fulfilled with a nonce\<close>
  | Threw address error         \<comment> \<open>the call's promise rejected\<close>

text \<open>
  The two fields of the class, and the part of the JavaScript runtime the class relies
  on: which lock promises are resolved, how many were created, and the calls made so
  far (a call is named by its position). \<open>returned\<close> lists what the calls handed back,
  in the order of return, as (address, network count, nonce); no step reads it.
\<close>

record manager =
  nonces :: "address \<rightharpoonup> int"
  locks :: "address \<rightharpoonup> promise"
  resolved :: "promise set"
  created :: nat
  calls :: "call list"
  returned :: "(address \<times> int \<times> int) list"

definition new_manager :: manager where
  "new_manager = \<lparr>nonces = Map.empty, locks = Map.empty, resolved = {}, created = 0,
     calls = [], returned = []\<rparr>"

text \<open>
  \<^verbatim>\<open>this.locks.set(address, new Promise(r => resolve = r))\<close>: a promise that no one has
  seen before becomes the lock entry of the address. The promise created is
  \<open>created m\<close>, read before the step.
\<close>

definition enter :: "address \<Rightarrow> manager \<Rightarrow> manager" where
  "enter a m = m\<lparr>locks := (locks m)(a \<mapsto> created m), created := Suc (created m)\<rparr>"

text \<open>The \<^verbatim>\<open>finally\<close> block: \<^verbatim>\<open>resolve!(); this.locks.delete(address)\<close>.\<close>

definition finally_block :: "address \<Rightarrow> promise \<Rightarrow> manager \<Rightarrow> manager" where
  "finally_block a q m = m\<lparr>resolved := insert q (resolved m), locks := (locks m)(a := None)\<rparr>"

text \<open>
  A new call \<^verbatim>\<open>getNextNonce(client, address)\<close>, run to its first suspension: on
  \<^verbatim>\<open>await existing\<close> when the address has a lock entry; otherwise it sets its lock,
  starts the network query and is suspended inside \<^verbatim>\<open>try\<close>.
\<close>

definition getNextNonce_call :: "address \<Rightarrow> manager \<Rightarrow> manager" where
  "getNextNonce_call a m =
     (case locks m a of
        Some existing \<Rightarrow> m\<lparr>calls := calls m @ [AwaitLock a existing]\<rparr>
      | None \<Rightarrow> (enter a m)\<lparr>calls := calls m @ [AwaitNet a (created m)]\<rparr>)"

text \<open>
  The call at position \<open>i\<close> resumes after \<^verbatim>\<open>await existing\<close>, once that promise is
  resolved. The source does not look at \<^verbatim>\<open>this.locks\<close> again: it sets its own lock.
\<close>

definition getNextNonce_wake :: "nat \<Rightarrow> manager \<Rightarrow> manager" where
  "getNextNonce_wake i m =
     (if i < length (calls m) then
        (case calls m ! i of
           AwaitLock a existing \<Rightarrow>
             if existing \<in> resolved m
             then (enter a m)\<lparr>calls := (calls m)[i := AwaitNet a (created m)]\<rparr>
             else m
         | _ \<Rightarrow> m)
      else m)"

text \<open>
  The network query of the call at position \<open>i\<close> settles: with a pending count
  (\<open>Inr networkNonce\<close>) or with an error (\<open>Inl e\<close>), which \<^verbatim>\<open>await\<close> throws. There is no
  \<^verbatim>\<open>catch\<close>: the error leaves through \<^verbatim>\<open>finally\<close>.
\<close>

definition getNextNonce_reply :: "nat \<Rightarrow> error + int \<Rightarrow> manager \<Rightarrow> manager" where
  "getNextNonce_reply i r m =
     (if i < length (calls m) then
        (case calls m ! i of
           AwaitNet a q \<Rightarrow>
             (case r of
                Inr networkNonce \<Rightarrow>
                  (let lastUsed = (case nonces m a of Some l \<Rightarrow> l | None \<Rightarrow> - 1);
                       nonce = max networkNonce (js_plus lastUsed 1)
                   in finally_block a q
                        (m\<lparr>nonces := (nonces m)(a \<mapsto> nonce),
                           calls := (calls m)[i := Returned a nonce],
                           returned := returned m @ [(a, networkNonce, nonce)]\<rparr>))
              | Inl e \<Rightarrow> finally_block a q (m\<lparr>calls := (calls m)[i := Threw a e]\<rparr>))
         | _ \<Rightarrow> m)
      else m)"

text \<open>\<^verbatim>\<open>reset(address) { this.nonces.delete(address); }\<close>\<close>

definition reset :: "address \<Rightarrow> manager \<Rightarrow> manager" where
  "reset a m = m\<lparr>nonces := (nonces m)(a := None)\<rparr>"

text \<open>
  Events and schedules. An event that cannot happen in a state (a wake-up before the
  promise is resolved, an answer for a call that awaits none) leaves the state as it is.
\<close>

datatype event = Call address | Wake nat | NetReply nat "error + int" | Reset address

fun step :: "event \<Rightarrow> manager \<Rightarrow> manager" where
  "step (Call a) m = getNextNonce_call a m"
| "step (Wake i) m = getNextNonce_wake i m"
| "step (NetReply i r) m = getNextNonce_reply i r m"
| "step (Reset a) m = reset a m"

definition run :: "event list \<Rightarrow> manager \<Rightarrow> manager" where
  "run evs m = fold step evs m"

text \<open>
  An uncontended reservation from call to return: the call, then the answer \<open>r\<close> of its
  network query.
\<close>

definition reserve :: "error + int \<Rightarrow> address \<Rightarrow> manager \<Rightarrow> manager" where
  "reserve r a m = getNextNonce_reply (length (calls m)) r (getNextNonce_call a m)"

text \<open>
  Observations: the (network count, nonce) pairs returned for one address, in the order
  of return; \<^verbatim>\<open>this.nonces.get(address) ?? -1\<close>; and the value \<^verbatim>\<open>lastUsed + 1\<close>, as
  the source computes it, that the next reservation compares with.
\<close>

definition history :: "address \<Rightarrow> manager \<Rightarrow> (int \<times> int) list" where
  "history a m = map snd (filter (\<lambda>e. fst e = a) (returned m))"

definition lastUsed :: "manager \<Rightarrow> address \<Rightarrow> int" where
  "lastUsed m a = (case nonces m a of Some l \<Rightarrow> l | None \<Rightarrow> - 1)"

definition localNext :: "manager \<Rightarrow> address \<Rightarrow> int" where
  "localNext m a = js_plus (lastUsed m a) 1"


text \<open>The nonces that the calls for one address have returned, by position of the call.\<close>

definition results :: "address \<Rightarrow> call list \<Rightarrow> int list" where
  "results a cs =
     concat (map (\<lambda>c. case c of Returned b v \<Rightarrow> if b = a then [v] else [] | _ \<Rightarrow> []) cs)"

text \<open>
  A history has no gap of the sequencer's own making when every nonce is the one before
  it plus one, unless the network reported a higher pending count at that reservation.
\<close>

definition gapless :: "(int \<times> int) list \<Rightarrow> bool" where
  "gapless h = successively (\<lambda>p p'. snd p' = max (fst p') (snd p + 1)) h"

text \<open>
  Invariants of a schedule without \<^verbatim>\<open>reset\<close>: every nonce returned is the maximum of
  the network count and \<^verbatim>\<open>lastUsed + 1\<close>, as the source computes it, for the nonce
  returned before; the stored nonce is the last one returned; and the calls that
  returned are exactly the entries of the history.
\<close>

definition chained :: "(int \<times> int) list \<Rightarrow> bool" where
  "chained h = successively (\<lambda>p p'. snd p' = max (fst p') (js_plus (snd p) 1)) h"

definition tracked :: "address \<Rightarrow> manager \<Rightarrow> bool" where
  "tracked a m =
     (chained (history a m) \<and>
      (history a m = [] \<or> nonces m a = Some (snd (last (history a m)))))"

definition accounted :: "address \<Rightarrow> manager \<Rightarrow> bool" where
  "accounted a m = (mset (results a (calls m)) = mset (map snd (history a m)))"

subsection \<open>The React variants of getNextNonce\<close>

text \<open>
  Privy integration:
  \<^verbatim>\<open>
  const lastNonceRef = useRef<number>(-1);

  async function getNextNonce(client: PublicClient, address: `0x${string}`) {
    let nonce = await client.getTransactionCount({ address, blockTag: 'pending' });
    if (lastNonceRef.current >= nonce) {
      nonce = lastNonceRef.current + 1;
    }
    lastNonceRef.current = nonce;
    return nonce;
  }
  \<close>
  The first argument is the outcome of the network query, the second the content of
  \<^verbatim>\<open>lastNonceRef\<close>; the result is what the call returns or throws, and the new content.
\<close>

definition getNextNonce_privy :: "error + int \<Rightarrow> int \<Rightarrow> (error + int) \<times> int" where
  "getNextNonce_privy reply lastNonceRef =
     (case reply of
        Inl e \<Rightarrow> (Inl e, lastNonceRef)
      | Inr networkNonce \<Rightarrow>
          (let nonce = (if lastNonceRef \<ge> networkNonce then js_plus lastNonceRef 1
                        else networkNonce)
           in (Inr nonce, nonce)))"

text \<open>
  Wallet operations, the hook that tracks the last nonce per chain:
  \<^verbatim>\<open>
  const lastNonceRef = useRef<Record<number, number>>({});

  async function getNextNonce(client, address, chainId: number): Promise<number> {
    let nonce = await client.getTransactionCount({ address, blockTag: 'pending' });
    const lastUsed = lastNonceRef.current[chainId] ?? -1;
    if (lastUsed >= nonce) {
      nonce = lastUsed + 1;
    }
    lastNonceRef.current[chainId] = nonce;
    return nonce;
  }
  \<close>
\<close>

definition getNextNonce_perChain ::
  "error + int \<Rightarrow> int \<Rightarrow> (int \<rightharpoonup> int) \<Rightarrow> (error + int) \<times> (int \<rightharpoonup> int)" where
  "getNextNonce_perChain reply chainId lastNonceRef =
     (case reply of
        Inl e \<Rightarrow> (Inl e, lastNonceRef)
      | Inr networkNonce \<Rightarrow>
          (let lastUsed = (case lastNonceRef chainId of Some l \<Rightarrow> l | None \<Rightarrow> - 1);
               nonce = (if lastUsed \<ge> networkNonce then js_plus lastUsed 1 else networkNonce)
           in (Inr nonce, lastNonceRef(chainId \<mapsto> nonce))))"

section \<open>submitWithRetry (security considerations, blockhash expiry)\<close>

text \<open>
  \<^verbatim>\<open>
  async function submitWithRetry(tx: Transaction, maxRetries = 3) {
    for (let i = 0; i < maxRetries; i++) {
      try {
        const blockhash = await client.getLatestBlockhash();
        tx.blockhash = blockhash;
        return await client.sendTransaction(tx);
      } catch (e) {
        if (!e.message.includes('blockhash')) throw e;
      }
    }
    throw new Error('Transaction expired');
  }
  \<close>

  The transaction is an object with a \<^verbatim>\<open>blockhash\<close> field; \<open>rest\<close> stands for its other
  fields, which \<^verbatim>\<open>submitWithRetry\<close> never touches. The client is the environment: its
  answers are given per iteration \<open>i\<close> of the loop, in which \<^verbatim>\<open>getLatestBlockhash\<close> is
  called once and \<^verbatim>\<open>sendTransaction\<close> at most once. Beside what the call returns or
  throws, the model gives the submissions made, each with its iteration, in order.
\<close>

record transaction =
  blockhash :: string
  rest :: string

type_synonym receipt = string

record client =
  getLatestBlockhash :: "nat \<Rightarrow> error + string"
  sendTransaction :: "nat \<Rightarrow> transaction \<Rightarrow> error + receipt"

text \<open>\<^verbatim>\<open>String.prototype.includes\<close>: the search string occurs as a contiguous part.\<close>

definition str_includes :: "string \<Rightarrow> string \<Rightarrow> bool" where
  "str_includes str searchString = sublist searchString str"

function submitWithRetry_loop ::
  "client \<Rightarrow> int \<Rightarrow> nat \<Rightarrow> transaction \<Rightarrow> (nat \<times> transaction) list
     \<Rightarrow> (error + receipt) \<times> (nat \<times> transaction) list" where
  "submitWithRetry_loop client maxRetries i tx sent =
     (if int i < maxRetries then
        (case getLatestBlockhash client i of
           Inl e \<Rightarrow>
             if \<not> str_includes (message e) ''blockhash'' then (Inl e, sent)
             else submitWithRetry_loop client maxRetries (Suc i) tx sent
         | Inr blockhash' \<Rightarrow>
             (let tx' = tx\<lparr>blockhash := blockhash'\<rparr>
              in case sendTransaction client i tx' of
                   Inr r \<Rightarrow> (Inr r, sent @ [(i, tx')])
                 | Inl e \<Rightarrow>
                     if \<not> str_includes (message e) ''blockhash'' then (Inl e, sent @ [(i, tx')])
                     else submitWithRetry_loop client maxRetries (Suc i) tx' (sent @ [(i, tx')])))
      else (Inl (Error ''Transaction expired''), sent))"
  by pat_completeness auto
termination
  by (relation "measure (\<lambda>(client, maxRetries, i, tx, sent). nat (maxRetries - int i))") auto

declare submitWithRetry_loop.simps [simp del]

definition submitWithRetry ::
  "client \<Rightarrow> transaction \<Rightarrow> int \<Rightarrow> (error + receipt) \<times> (nat \<times> transaction) list" where
  "submitWithRetry client tx maxRetries = submitWithRetry_loop client maxRetries 0 tx []"

text \<open>The call without the second argument: \<^verbatim>\<open>maxRetries = 3\<close>.\<close>

definition submitWithRetry_default ::
  "client \<Rightarrow> transaction \<Rightarrow> (error + receipt) \<times> (nat \<times> transaction) list" where
  "submitWithRetry_default client tx = submitWithRetry client tx 3"

text \<open>
  What iteration \<open>i\<close> meets: the failure of the block-reference query, or else the
  answer to the submission of the transaction carrying the block reference just read.
\<close>

definition attempt :: "client \<Rightarrow> transaction \<Rightarrow> nat \<Rightarrow> error + receipt" where
  "attempt client tx i =
     (case getLatestBlockhash client i of
        Inl e \<Rightarrow> Inl e
      | Inr blockhash' \<Rightarrow> sendTransaction client i (tx\<lparr>blockhash := blockhash'\<rparr>))"

text \<open>The test of the \<^verbatim>\<open>catch\<close> block, on an outcome: a failure that the loop retries.\<close>

definition retried :: "error + receipt \<Rightarrow> bool" where
  "retried r = (case r of Inl e \<Rightarrow> str_includes (message e) ''blockhash'' | Inr _ \<Rightarrow> False)"


text \<open>
  What one iteration leaves behind when the loop goes on: the transaction object with
  the block reference written into it, and the submission made, if any.
\<close>

definition carried :: "client \<Rightarrow> nat \<Rightarrow> transaction \<Rightarrow> transaction" where
  "carried client i tx =
     (case getLatestBlockhash client i of Inl e \<Rightarrow> tx | Inr b \<Rightarrow> tx\<lparr>blockhash := b\<rparr>)"

definition submitted :: "client \<Rightarrow> nat \<Rightarrow> transaction \<Rightarrow> (nat \<times> transaction) list" where
  "submitted client i tx =
     (case getLatestBlockhash client i of Inl e \<Rightarrow> [] | Inr b \<Rightarrow> [(i, tx\<lparr>blockhash := b\<rparr>)])"

text \<open>A submission as the loop makes them, of transaction \<open>tx\<close> with bound \<open>maxRetries\<close>.\<close>

definition sent_ok :: "client \<Rightarrow> transaction \<Rightarrow> int \<Rightarrow> nat \<times> transaction \<Rightarrow> bool" where
  "sent_ok client tx maxRetries p =
     (getLatestBlockhash client (fst p) = Inr (blockhash (snd p))
      \<and> snd p = tx\<lparr>blockhash := blockhash (snd p)\<rparr>
      \<and> int (fst p) < maxRetries)"

section \<open>parseSignature (Privy integration)\<close>

text \<open>
  \<^verbatim>\<open>
  function parseSignature(signature: `0x${string}`, chainId: number)
      : { r: `0x${string}`; s: `0x${string}`; v: bigint } {
    const r = `0x${signature.slice(2, 66)}` as `0x${string}`;
    const s = `0x${signature.slice(66, 130)}` as `0x${string}`;
    let recoveryBit = parseInt(signature.slice(130, 132), 16);
    if (recoveryBit >= 27) recoveryBit -= 27;
    const v = BigInt(chainId) * 2n + 35n + BigInt(recoveryBit);
    return { r, s, v };
  }
  \<close>
  \<^verbatim>\<open>useMegaETHTransaction.sendTransaction\<close> has the same lines inline, with
  \<^verbatim>\<open>CHAIN_ID = 6343\<close> for \<^verbatim>\<open>chainId\<close>.
\<close>

text \<open>\<^verbatim>\<open>String.prototype.slice(start, end)\<close> for indices that are not negative.\<close>

definition slice :: "string \<Rightarrow> nat \<Rightarrow> nat \<Rightarrow> string" where
  "slice str start end' = take (end' - start) (drop start str)"

text \<open>
  \<^verbatim>\<open>parseInt(string, 16)\<close> as ECMAScript defines it: leading white space is skipped, a sign
  is read, a prefix \<^verbatim>\<open>0x\<close> or \<^verbatim>\<open>0X\<close> is dropped, and the longest run of hexadecimal digits
  that follows is the number; with no digit the result is \<^verbatim>\<open>NaN\<close>, here \<open>None\<close>.
\<close>

definition isWhiteSpace :: "char \<Rightarrow> bool" where
  "isWhiteSpace c = (of_char c \<in> {9, 10, 11, 12, 13, 32, 160 :: nat})"

definition digitValue :: "char \<Rightarrow> nat option" where
  "digitValue c =
     (let n = of_char c :: nat
      in if 48 \<le> n \<and> n \<le> 57 then Some (n - 48)
         else if 97 \<le> n \<and> n \<le> 102 then Some (n - 87)
         else if 65 \<le> n \<and> n \<le> 70 then Some (n - 55)
         else None)"

definition parseInt16 :: "string \<Rightarrow> int option" where
  "parseInt16 str =
     (let S = dropWhile isWhiteSpace str;
          sign = (if take 1 S = ''-'' then - 1 else 1 :: int);
          S1 = (if take 1 S = ''+'' \<or> take 1 S = ''-'' then drop 1 S else S);
          S2 = (if take 2 S1 = ''0x'' \<or> take 2 S1 = ''0X'' then drop 2 S1 else S1);
          Z = takeWhile (\<lambda>c. digitValue c \<noteq> None) S2
      in if Z = [] then None
         else Some (sign *
                int (foldl (\<lambda>acc c. 16 * acc + (case digitValue c of Some d \<Rightarrow> d | None \<Rightarrow> 0))
                       0 Z)))"

record signature_parts =
  r :: string
  s :: string
  v :: int

text \<open>
  \<^verbatim>\<open>NaN >= 27\<close> is false, and \<^verbatim>\<open>BigInt(NaN)\<close> throws a \<^verbatim>\<open>RangeError\<close>; \<^verbatim>\<open>chainId\<close> is an
  integer here, so \<^verbatim>\<open>BigInt(chainId)\<close> does not throw.
\<close>

definition parseSignature :: "string \<Rightarrow> int \<Rightarrow> error + signature_parts" where
  "parseSignature signature chainId =
     (let r' = ''0x'' @ slice signature 2 66;
          s' = ''0x'' @ slice signature 66 130
      in case parseInt16 (slice signature 130 132) of
           None \<Rightarrow> Inl (Error ''The number NaN cannot be converted to a BigInt because it is not an integer'')
         | Some parsed \<Rightarrow>
             (let recoveryBit = (if parsed \<ge> 27 then parsed - 27 else parsed)
              in Inr \<lparr>r = r', s = s', v = chainId * 2 + 35 + recoveryBit\<rparr>))"

definition CHAIN_ID :: int where
  "CHAIN_ID = 6343"

text \<open>
  The hexadecimal notation of a byte sequence, the \<^verbatim>\<open>`0x${string}`\<close> values of the
  source: two digits for each byte, after \<^verbatim>\<open>0x\<close>.
\<close>

definition hexChar :: "nat \<Rightarrow> char" where
  "hexChar n = ''0123456789abcdef'' ! n"

definition hexByte :: "8 word \<Rightarrow> string" where
  "hexByte b = [hexChar (unat b div 16), hexChar (unat b mod 16)]"

definition toHex :: "8 word list \<Rightarrow> string" where
  "toHex bytes = ''0x'' @ concat (map hexByte bytes)"

section \<open>Signing warmup (Privy integration)\<close>

text \<open>
  \<^verbatim>\<open>
  function useSigningWarmup() {
    const { wallets } = useWallets();

    useEffect(() => {
      const wallet = wallets.find(w => w.walletClientType === 'privy');
      if (!wallet) return;

      async function warmup() {
        const provider = await wallet.getEthereumProvider();
        await new Promise(r => setTimeout(r, 100));
        const dummyHash = '0x0000000000000000000000000000000000000000000000000000000000000001';
        try {
          await provider.request({ method: 'secp256k1_sign', params: [dummyHash] });
          console.log('[Privy] Signing path warmed up');
        } catch (e) {
          // Retry once after delay
          await new Promise(r => setTimeout(r, 500));
          await provider.request({ method: 'secp256k1_sign', params: [dummyHash] });
        }
      }

      warmup();
    }, [wallets]);
  }
  \<close>

  The provider is the environment: \<open>provider n digest\<close> is its answer to the \<open>n\<close>-th
  signing request of a warmup (counted from 0). Beside its outcome, \<open>warmup\<close> gives what
  it did, in order.
\<close>

record wallet =
  walletClientType :: string

type_synonym provider = "nat \<Rightarrow> string \<Rightarrow> error + string"

datatype action = GetProvider | Sleep nat | Sign string | Log string

definition dummyHash :: string where
  "dummyHash = ''0x0000000000000000000000000000000000000000000000000000000000000001''"

definition warmup :: "error + provider \<Rightarrow> (error + unit) \<times> action list" where
  "warmup getEthereumProvider =
     (case getEthereumProvider of
        Inl e \<Rightarrow> (Inl e, [GetProvider])
      | Inr provider \<Rightarrow>
          (case provider 0 dummyHash of
             Inr _ \<Rightarrow>
               (Inr (), [GetProvider, Sleep 100, Sign dummyHash,
                         Log ''[Privy] Signing path warmed up''])
           | Inl e \<Rightarrow>
               (case provider 1 dummyHash of
                  Inr _ \<Rightarrow>
                    (Inr (), [GetProvider, Sleep 100, Sign dummyHash, Sleep 500, Sign dummyHash])
                | Inl e' \<Rightarrow>
                    (Inl e', [GetProvider, Sleep 100, Sign dummyHash, Sleep 500, Sign dummyHash]))))"

text \<open>
  The effect ends with the bare statement \<^verbatim>\<open>warmup();\<close>: the promise is neither awaited
  nor given a handler. So the effect itself always completes normally; a rejection of
  the warmup is an unhandled rejection, which the runtime reports and no caller
  receives. The result is: what the effect returns or throws to its caller, what was
  done, and the rejections left unhandled.
\<close>

definition useSigningWarmup_effect ::
  "wallet list \<Rightarrow> error + provider \<Rightarrow> (error + unit) \<times> action list \<times> error list" where
  "useSigningWarmup_effect wallets getEthereumProvider =
     (case find (\<lambda>w. walletClientType w = ''privy'') wallets of
        None \<Rightarrow> (Inr (), [], [])
      | Some wallet \<Rightarrow>
          (case warmup getEthereumProvider of
             (Inr _, done) \<Rightarrow> (Inr (), done, [])
           | (Inl e, done) \<Rightarrow> (Inr (), done, [e])))"

text \<open>
  \<^verbatim>\<open>
  export function useMegaETHTransaction() {
    const { wallets } = useWallets();
    const lastNonceRef = useRef(-1);
    const isWarmedUp = useRef(false);

    // Warmup on mount
    useEffect(() => {
      const wallet = wallets.find(w => w.walletClientType === 'privy');
      if (!wallet || isWarmedUp.current) return;

      wallet.getEthereumProvider().then(async (provider) => {
        await client.getBlockNumber();
        await new Promise(r => setTimeout(r, 100));
        const dummyHash = '0x0000000000000000000000000000000000000000000000000000000000000001';
        await provider.request({ method: 'secp256k1_sign', params: [dummyHash] });
        isWarmedUp.current = true;
        console.log('[Ready] RPC + signing warmed up');
      });
    }, [wallets]);
    ...
  \<close>

  The effect runs again whenever \<^verbatim>\<open>wallets\<close> changes, and a warmup it has started goes on
  across four suspensions, so several warmups can be in flight. As for
  \<^verbatim>\<open>getNextNonce\<close>, each atomic piece is an event: a run of the effect, and the settling
  of the provider promise, of the block-number query, of the timer and of the signing
  request of the warmup at position \<open>i\<close>. \<open>signRequests\<close> lists the digests of the signing
  requests issued to the provider, in order.
\<close>

datatype warmup_stage =
    AwaitProvider | AwaitBlockNumber | Sleeping | AwaitSign | Ready | Rejected error

record hook =
  isWarmedUp :: bool
  warmups :: "warmup_stage list"
  signRequests :: "string list"

definition new_hook :: hook where
  "new_hook = \<lparr>isWarmedUp = False, warmups = [], signRequests = []\<rparr>"

definition useEffect :: "wallet list \<Rightarrow> hook \<Rightarrow> hook" where
  "useEffect wallets h =
     (case find (\<lambda>w. walletClientType w = ''privy'') wallets of
        None \<Rightarrow> h
      | Some wallet \<Rightarrow>
          if isWarmedUp h then h else h\<lparr>warmups := warmups h @ [AwaitProvider]\<rparr>)"

definition providerSettled :: "nat \<Rightarrow> error + unit \<Rightarrow> hook \<Rightarrow> hook" where
  "providerSettled i res h =
     (if i < length (warmups h) \<and> warmups h ! i = AwaitProvider then
        (case res of
           Inl e \<Rightarrow> h\<lparr>warmups := (warmups h)[i := Rejected e]\<rparr>
         | Inr _ \<Rightarrow> h\<lparr>warmups := (warmups h)[i := AwaitBlockNumber]\<rparr>)
      else h)"

definition blockNumberSettled :: "nat \<Rightarrow> error + int \<Rightarrow> hook \<Rightarrow> hook" where
  "blockNumberSettled i res h =
     (if i < length (warmups h) \<and> warmups h ! i = AwaitBlockNumber then
        (case res of
           Inl e \<Rightarrow> h\<lparr>warmups := (warmups h)[i := Rejected e]\<rparr>
         | Inr _ \<Rightarrow> h\<lparr>warmups := (warmups h)[i := Sleeping]\<rparr>)
      else h)"

definition timerFired :: "nat \<Rightarrow> hook \<Rightarrow> hook" where
  "timerFired i h =
     (if i < length (warmups h) \<and> warmups h ! i = Sleeping then
        h\<lparr>warmups := (warmups h)[i := AwaitSign],
          signRequests := signRequests h @ [dummyHash]\<rparr>
      else h)"

definition signSettled :: "nat \<Rightarrow> error + string \<Rightarrow> hook \<Rightarrow> hook" where
  "signSettled i res h =
     (if i < length (warmups h) \<and> warmups h ! i = AwaitSign then
        (case res of
           Inl e \<Rightarrow> h\<lparr>warmups := (warmups h)[i := Rejected e]\<rparr>
         | Inr _ \<Rightarrow> h\<lparr>warmups := (warmups h)[i := Ready], isWarmedUp := True\<rparr>)
      else h)"

datatype hook_event =
    Effect "wallet list"
  | ProviderSettled nat "error + unit"
  | BlockNumberSettled nat "error + int"
  | TimerFired nat
  | SignSettled nat "error + string"

fun hook_step :: "hook_event \<Rightarrow> hook \<Rightarrow> hook" where
  "hook_step (Effect wallets) h = useEffect wallets h"
| "hook_step (ProviderSettled i res) h = providerSettled i res h"
| "hook_step (BlockNumberSettled i res) h = blockNumberSettled i res h"
| "hook_step (TimerFired i) h = timerFired i h"
| "hook_step (SignSettled i res) h = signSettled i res h"

definition hook_run :: "hook_event list \<Rightarrow> hook \<Rightarrow> hook" where
  "hook_run evs h = fold hook_step evs h"


section \<open>Concrete inputs\<close>

definition sender_A :: address where
  "sender_A = ''0xA''"

text \<open>Sender A with last used nonce 5 (next is 6), and two calls that overlap.\<close>

definition next_is_6 :: manager where
  "next_is_6 = new_manager\<lparr>nonces := [sender_A \<mapsto> 5]\<rparr>"

definition two_concurrent :: "event list" where
  "two_concurrent = [Call sender_A, Call sender_A, NetReply 0 (Inr 6), Wake 1, NetReply 1 (Inr 6)]"

definition sender_B :: address where
  "sender_B = ''0xB''"

text \<open>Sender A with last used nonce 4 (next is 5).\<close>

definition next_is_5 :: manager where
  "next_is_5 = new_manager\<lparr>nonces := [sender_A \<mapsto> 4]\<rparr>"

text \<open>A reservation of A under way, its network query not yet answered.\<close>

definition first_pending :: manager where
  "first_pending = getNextNonce_call sender_A next_is_5"

text \<open>A reservation of another sender, then the next call for A.\<close>

definition lagging :: "event list" where
  "lagging = [Call sender_B, NetReply 1 (Inr 9), Call sender_A]"

text \<open>Two calls for A: the first holds the lock, the second waits for it.\<close>

definition one_waiting :: manager where
  "one_waiting = run [Call sender_A, Call sender_A] next_is_5"

text \<open>
  The two overlapping calls again, with \<^verbatim>\<open>reset\<close> of A between the first return and the
  wake-up of the second call; and two overlapping calls while the network first
  reports \<open>2 ^ 53\<close> pending transactions, then none.
\<close>

definition reset_between :: "event list" where
  "reset_between = [Call sender_A, Call sender_A, NetReply 0 (Inr 6), Reset sender_A, Wake 1,
     NetReply 1 (Inr 6)]"

definition beyond_safe :: "event list" where
  "beyond_safe = [Call sender_A, Call sender_A, NetReply 0 (Inr 9007199254740992), Wake 1,
     NetReply 1 (Inr 0)]"

text \<open>Sender A with last used nonce \<open>2 ^ 53\<close>.\<close>

definition at_limit :: manager where
  "at_limit = new_manager\<lparr>nonces := [sender_A \<mapsto> 9007199254740992]\<rparr>"

text \<open>A transaction, and clients that answer the iterations of the loop differently.\<close>

definition tx0 :: transaction where
  "tx0 = \<lparr>blockhash = '''', rest = ''transfer 1 ETH to 0xB''\<rparr>"

definition flaky_client :: client where
  "flaky_client = \<lparr>getLatestBlockhash = (\<lambda>i. Inr ''0xb1''),
     sendTransaction = (\<lambda>i t. if i = 0 then Inl (Error ''fetch failed'') else Inr ''receipt'')\<rparr>"

definition stale_client :: client where
  "stale_client = \<lparr>getLatestBlockhash = (\<lambda>i. Inr ''0xb1''),
     sendTransaction = (\<lambda>i t. if i = 0 then Inl (Error ''blockhash expired'') else Inr ''receipt'')\<rparr>"

definition advancing_client :: client where
  "advancing_client = \<lparr>getLatestBlockhash = (\<lambda>i. Inr (if i = 0 then ''0xb1'' else ''0xb2'')),
     sendTransaction = (\<lambda>i t. if blockhash t = ''0xb1'' then Inl (Error ''blockhash expired'')
                              else Inl (Error ''insufficient funds''))\<rparr>"

definition expiring_client :: client where
  "expiring_client = \<lparr>getLatestBlockhash = (\<lambda>i. Inr ''0xb1''),
     sendTransaction = (\<lambda>i t. Inl (Error ''blockhash expired''))\<rparr>"

text \<open>
  Two 65-byte signatures: one ending in the recovery byte 28, one ending in 27.
\<close>

definition sig_bytes :: "8 word list" where
  "sig_bytes = replicate 32 17 @ replicate 32 34 @ [28]"

definition sig_bytes_27 :: "8 word list" where
  "sig_bytes_27 = replicate 64 0 @ [27]"

text \<open>
  A Privy wallet, a provider whose first two signing requests fail, one that accepts
  every request, and schedules of
  the warmup effect: two runs that overlap, the pieces that take the warmup at position
  \<open>i\<close> from its start to its signing request, and one warmup run to its end.
\<close>

definition privy_wallet :: wallet where
  "privy_wallet = \<lparr>walletClientType = ''privy''\<rparr>"

definition failing_provider :: provider where
  "failing_provider = (\<lambda>n digest. if n = 0 then Inl (Error ''wallet not ready'')
                                   else Inl (Error ''signing timed out''))"

definition accepting_provider :: provider where
  "accepting_provider = (\<lambda>n digest. Inr ''0xsignature'')"

definition two_effects :: "hook_event list" where
  "two_effects = [Effect [privy_wallet], Effect [privy_wallet],
     ProviderSettled 0 (Inr ()), ProviderSettled 1 (Inr ()),
     BlockNumberSettled 0 (Inr 100), BlockNumberSettled 1 (Inr 100),
     TimerFired 0, TimerFired 1]"

definition drive :: "nat \<Rightarrow> hook_event list" where
  "drive i = [ProviderSettled i (Inr ()), BlockNumberSettled i (Inr 100), TimerFired i]"

definition ready_hook :: hook where
  "ready_hook = hook_run [Effect [privy_wallet], ProviderSettled 0 (Inr ()),
     BlockNumberSettled 0 (Inr 100), TimerFired 0, SignSettled 0 (Inr ''0xsignature'')] new_hook"

text \<open>
  Two runs of the effect; the first warmup is taken to its end, the second is still
  waiting for its timer when \<^verbatim>\<open>isWarmedUp\<close> becomes true.
\<close>

definition late_hook :: hook where
  "late_hook = hook_run [Effect [privy_wallet], Effect [privy_wallet],
     ProviderSettled 0 (Inr ()), ProviderSettled 1 (Inr ()),
     BlockNumberSettled 0 (Inr 100), BlockNumberSettled 1 (Inr 100),
     TimerFired 0, SignSettled 0 (Inr ''0xsignature'')] new_hook"

section \<open>Numbers: where addition is exact\<close>

lemma bitLength_le: "n < 2 ^ k \<Longrightarrow> bitLength n \<le> k"
proof (induction k arbitrary: n)
  case 0
  then show ?case by (simp add: bitLength.simps)
next
  case (Suc k)
  show ?case
  proof (cases "n = 0")
    case True
    then show ?thesis by (simp add: bitLength.simps)
  next
    case False
    have "n div 2 < 2 ^ k" using Suc.prems by simp
    then have "bitLength (n div 2) \<le> k" by (rule Suc.IH)
    then show ?thesis using False by (subst bitLength.simps) simp
  qed
qed

lemma bitLength_lower: "n \<noteq> 0 \<Longrightarrow> 2 ^ (bitLength n - 1) \<le> n"
proof (induction n rule: bitLength.induct)
  case (1 n)
  show ?case
  proof (cases "n div 2 = 0")
    case True
    then have "bitLength n = 1" using "1.prems"
      by (subst bitLength.simps) (simp add: bitLength.simps[of 0])
    then show ?thesis using "1.prems" by simp
  next
    case False
    then have ih: "2 ^ (bitLength (n div 2) - 1) \<le> n div 2"
      using "1.IH" "1.prems" by simp
    have pos: "bitLength (n div 2) \<noteq> 0"
      using False by (subst bitLength.simps) simp
    have "bitLength n = Suc (bitLength (n div 2))"
      using "1.prems" by (subst bitLength.simps) simp
    then have "2 ^ (bitLength n - 1) = 2 * 2 ^ (bitLength (n div 2) - 1)"
      using pos by (cases "bitLength (n div 2)") simp_all
    also have "\<dots> \<le> 2 * (n div 2)" using ih by simp
    also have "\<dots> \<le> n" by simp
    finally show ?thesis .
  qed
qed

lemma bitLength_gt: "2 ^ k \<le> n \<Longrightarrow> k < bitLength n"
proof (induction k arbitrary: n)
  case 0
  then show ?case by (subst bitLength.simps) simp
next
  case (Suc k)
  then have "2 ^ k \<le> n div 2" by simp
  then have "k < bitLength (n div 2)" by (rule Suc.IH)
  moreover have "(0::nat) < 2 ^ Suc k" by simp
  then have "n \<noteq> 0" using Suc.prems by linarith
  ultimately show ?case by (subst bitLength.simps) simp
qed

lemma binary64_exact: "\<bar>x\<bar> < 2 ^ 53 \<Longrightarrow> binary64 x = x"
proof -
  assume "\<bar>x\<bar> < 2 ^ 53"
  then have "nat \<bar>x\<bar> < 2 ^ 53" by (simp add: nat_less_iff)
  then have "bitLength (nat \<bar>x\<bar>) \<le> 53" by (rule bitLength_le)
  then show ?thesis by (simp add: binary64_def Let_def)
qed

lemma ulp_ge_2: "53 < e \<Longrightarrow> (2::nat) \<le> 2 ^ (e - 53)"
proof -
  assume "53 < e"
  then have "(2::nat) ^ 1 \<le> 2 ^ (e - 53)"
    by (intro power_increasing) simp_all
  then show ?thesis by simp
qed

lemma pow_split: "53 < e \<Longrightarrow> (2::nat) ^ (e - 1) = 2 ^ 52 * 2 ^ (e - 53)"
proof -
  assume "53 < e"
  then have "e - 1 = 52 + (e - 53)" by simp
  then show ?thesis by (simp only: power_add)
qed

lemma binary64_large:
  assumes "2 ^ 53 \<le> z"
  shows "2 ^ 53 \<le> binary64 z"
proof -
  let ?a = "nat \<bar>z\<bar>"
  let ?e = "bitLength ?a"
  let ?ulp = "(2::nat) ^ (?e - 53)"
  let ?q = "?a div ?ulp"
  have "(0::int) < 2 ^ 53" by simp
  with assms have zpos: "0 < z" by linarith
  have a: "2 ^ 53 \<le> ?a" using assms zpos by (simp add: le_nat_iff)
  then have e: "53 < ?e" by (rule bitLength_gt)
  have "?a \<noteq> 0" using zpos by simp
  then have low: "2 ^ (?e - 1) \<le> ?a" by (rule bitLength_lower)
  have "2 ^ 52 * ?ulp \<le> ?a" using low by (simp only: pow_split[OF e])
  then have q: "2 ^ 52 \<le> ?q"
    by (simp add: less_eq_div_iff_mult_less_eq)
  have ulp2: "2 \<le> ?ulp" using e by (rule ulp_ge_2)
  define q' where "q' = (if 2 * (?a mod ?ulp) < ?ulp \<or> (2 * (?a mod ?ulp) = ?ulp \<and> even ?q) then ?q else ?q + 1)"
  have q': "?q \<le> q'" by (simp add: q'_def)
  have "binary64 z = sgn z * int (q' * ?ulp)"
    using e unfolding binary64_def Let_def q'_def by simp
  then have eq: "binary64 z = int (q' * ?ulp)"
    using zpos by simp
  have "2 ^ 52 * 2 \<le> q' * ?ulp"
    using q q' ulp2 by (meson le_trans mult_le_mono)
  then have "(2::nat) ^ 53 \<le> q' * ?ulp" by simp
  then have "(2::int) ^ 53 \<le> int (q' * ?ulp)"
    by (metis of_nat_le_iff of_nat_numeral of_nat_power)
  then show ?thesis using eq by simp
qed

lemma bitLength_54: "2 ^ 53 \<le> n \<Longrightarrow> n < 2 ^ 54 \<Longrightarrow> bitLength n = 54"
proof -
  assume lo: "2 ^ 53 \<le> n" and hi: "n < 2 ^ 54"
  have "53 < bitLength n"
    using lo by (rule bitLength_gt)
  moreover have "bitLength n \<le> 54"
    using hi by (rule bitLength_le)
  ultimately show ?thesis by simp
qed

lemma binary64_limit:
  "binary64 9007199254740992 = 9007199254740992"
  "binary64 (- 9007199254740992) = - 9007199254740992"
  "binary64 9007199254740993 = 9007199254740992"
proof -
  have b: "bitLength 9007199254740992 = 54" "bitLength 9007199254740993 = 54"
    by (rule bitLength_54; simp)+
  show "binary64 9007199254740992 = 9007199254740992"
    "binary64 (- 9007199254740992) = - 9007199254740992"
    "binary64 9007199254740993 = 9007199254740992"
    by (simp_all add: binary64_def Let_def b)
qed

lemma js_plus_exact: "\<bar>x + y\<bar> \<le> 2 ^ 53 \<Longrightarrow> js_plus x y = x + y"
proof -
  assume b: "\<bar>x + y\<bar> \<le> 2 ^ 53"
  consider "\<bar>x + y\<bar> < 2 ^ 53" | "x + y = 2 ^ 53" | "x + y = - (2 ^ 53)"
    using b by linarith
  then show ?thesis
  proof cases
    case 1
    then show ?thesis unfolding js_plus_def by (rule binary64_exact)
  next
    case 2
    then show ?thesis by (simp add: js_plus_def binary64_limit)
  next
    case 3
    then show ?thesis by (simp add: js_plus_def binary64_limit)
  qed
qed

lemma js_plus_safe: "isSafeInteger x \<Longrightarrow> js_plus x 1 = x + 1"
  by (intro js_plus_exact) (simp add: isSafeInteger_def)

lemma js_plus_above:
  assumes "x \<le> l" and "isSafeInteger x"
  shows "x < js_plus l 1"
proof (cases "l + 1 \<le> 2 ^ 53")
  case True
  then have "\<bar>l + 1\<bar> \<le> 2 ^ 53"
    using assms by (simp add: isSafeInteger_def)
  then have "js_plus l 1 = l + 1"
    by (rule js_plus_exact)
  then show ?thesis
    using assms(1) by simp
next
  case False
  then have "2 ^ 53 \<le> binary64 (l + 1)"
    by (intro binary64_large) simp
  then show ?thesis
    using assms(2) by (simp add: js_plus_def isSafeInteger_def)
qed

section \<open>NonceManager: what every schedule preserves\<close>

lemma tracked_call: "tracked a m \<Longrightarrow> tracked a (getNextNonce_call b m)"
  by (auto simp: tracked_def getNextNonce_call_def enter_def history_def split: option.splits)

lemma tracked_wake: "tracked a m \<Longrightarrow> tracked a (getNextNonce_wake i m)"
  by (auto simp: tracked_def getNextNonce_wake_def enter_def history_def
      split: option.splits call.splits)

lemma tracked_reply: "tracked a m \<Longrightarrow> tracked a (getNextNonce_reply i rep m)"
  by (auto simp: tracked_def getNextNonce_reply_def finally_block_def history_def chained_def
      successively_append_iff Let_def split: option.splits call.splits sum.splits)

lemma tracked_reset: "b \<noteq> a \<Longrightarrow> tracked a m \<Longrightarrow> tracked a (reset b m)"
  by (auto simp: tracked_def reset_def history_def)

lemma tracked_run: "Reset a \<notin> set evs \<Longrightarrow> tracked a m \<Longrightarrow> tracked a (run evs m)"
proof (induction evs arbitrary: m)
  case Nil
  then show ?case by (simp add: run_def)
next
  case (Cons e evs)
  have "tracked a (step e m)"
    using Cons.prems by (cases e) (auto intro: tracked_call tracked_wake tracked_reply tracked_reset)
  with Cons show ?case by (simp add: run_def)
qed

lemma chained_gapless:
  assumes "chained h" and "\<forall>p \<in> set h. isSafeInteger (snd p)"
  shows "gapless h"
  unfolding gapless_def
  using assms(1) unfolding chained_def
proof (rule successively_mono)
  fix p p'
  assume "p \<in> set h" and "snd p' = max (fst p') (js_plus (snd p) 1)"
  then show "snd p' = max (fst p') (snd p + 1)"
    using assms(2) by (simp add: js_plus_safe)
qed

lemma gapless_ascending:
  assumes "gapless h"
  shows "sorted_wrt (<) (map snd h)"
proof -
  have "successively (\<lambda>p p'. snd p < snd p') h"
    using assms unfolding gapless_def by (rule successively_mono) auto
  then have "successively (<) (map snd h)"
    by (simp add: successively_map)
  then show ?thesis
    by (simp add: successively_conv_sorted_wrt)
qed

lemma results_append: "results a (xs @ ys) = results a xs @ results a ys"
  by (simp add: results_def)

lemma results_Cons: "results a (c # cs) = results a [c] @ results a cs"
  by (simp add: results_def)

lemma results_update:
  assumes "i < length cs"
  shows "mset (results a (cs[i := c])) + mset (results a [cs ! i])
       = mset (results a cs) + mset (results a [c])"
proof -
  have upd: "cs[i := c] = take i cs @ [c] @ drop (Suc i) cs"
    using assms by (simp add: upd_conv_take_nth_drop)
  have same: "cs = take i cs @ [cs ! i] @ drop (Suc i) cs"
    using assms by (simp add: id_take_nth_drop)
  have "mset (results a (cs[i := c])) + mset (results a [cs ! i])
      = mset (results a (take i cs)) + mset (results a [c])
        + mset (results a (drop (Suc i) cs)) + mset (results a [cs ! i])"
    by (subst upd) (simp add: results_append results_Cons[of a c "drop (Suc i) cs"])
  also have "\<dots> = mset (results a (take i cs @ [cs ! i] @ drop (Suc i) cs)) + mset (results a [c])"
    by (simp add: results_append results_Cons[of a "cs ! i" "drop (Suc i) cs"])
  finally show ?thesis
    using same by simp
qed

lemma accounted_call: "accounted a m \<Longrightarrow> accounted a (getNextNonce_call b m)"
  by (auto simp: accounted_def getNextNonce_call_def enter_def history_def results_append
      split: option.splits)
     (auto simp: results_def)

lemma accounted_wake: "accounted a m \<Longrightarrow> accounted a (getNextNonce_wake i m)"
  using results_update[of i "calls m" a]
  by (auto simp: accounted_def getNextNonce_wake_def enter_def history_def
      split: option.splits call.splits)
     (auto simp: results_def)

lemma accounted_reply: "accounted a m \<Longrightarrow> accounted a (getNextNonce_reply i rep m)"
  using results_update[of i "calls m" a]
  by (auto simp: accounted_def getNextNonce_reply_def finally_block_def history_def Let_def
      split: option.splits call.splits sum.splits)
     (auto simp: results_def)

lemma accounted_reset: "accounted a m \<Longrightarrow> accounted a (reset b m)"
  by (auto simp: accounted_def reset_def history_def)

lemma accounted_run: "accounted a m \<Longrightarrow> accounted a (run evs m)"
proof (induction evs arbitrary: m)
  case Nil
  then show ?case by (simp add: run_def)
next
  case (Cons e evs)
  have "accounted a (step e m)"
    using Cons.prems
    by (cases e) (auto intro: accounted_call accounted_wake accounted_reply accounted_reset)
  with Cons show ?case by (simp add: run_def)
qed

lemma results_member: "Returned a y \<in> set cs \<Longrightarrow> y \<in> set (results a cs)"
  by (force simp: results_def)

lemma results_distinct_nth:
  assumes d: "distinct (results a cs)" and ij: "i < j" "j < length cs"
    and x: "cs ! i = Returned a x" and y: "cs ! j = Returned a y"
  shows "x \<noteq> y"
proof -
  have i: "i < length cs"
    using ij by simp
  have "drop (Suc i) cs ! (j - Suc i) = cs ! j"
    using ij by simp
  moreover have "j - Suc i < length (drop (Suc i) cs)"
    using ij by simp
  ultimately have "cs ! j \<in> set (drop (Suc i) cs)"
    by (metis nth_mem)
  then have mem: "y \<in> set (results a (drop (Suc i) cs))"
    using y by (simp add: results_member)
  have "results a [cs ! i] = [x]"
    using x by (simp add: results_def)
  moreover have "cs = take i cs @ [cs ! i] @ drop (Suc i) cs"
    using i by (simp add: id_take_nth_drop)
  ultimately have "results a cs = results a (take i cs) @ [x] @ results a (drop (Suc i) cs)"
    by (metis results_append)
  with d mem show ?thesis by auto
qed

lemma js_plus_small:
  "js_plus (- 1) 1 = 0" "js_plus 3 1 = 4" "js_plus 4 1 = 5" "js_plus 5 1 = 6" "js_plus 6 1 = 7"
  "js_plus 9 1 = 10" "js_plus 9007199254740992 1 = 9007199254740992"
  by (simp_all add: js_plus_exact) (simp add: js_plus_def binary64_limit)

text \<open>
  C1 (as stated, refuted). Two overlapping calls for sender A with local next 6 both
  return 6 when \<^verbatim>\<open>reset\<close> of A runs between the return of the first and the wake-up of
  the second. And two overlapping calls both return \<open>2 ^ 53\<close> when the network first
  reports \<open>2 ^ 53\<close> and then 0: \<^verbatim>\<open>lastUsed + 1\<close> is \<open>2 ^ 53\<close> again.
\<close>

theorem getNextNonce_concurrent_same_value_counterexample:
  "calls (run reset_between next_is_6) = [Returned sender_A 6, Returned sender_A 6]
   \<and> calls (run beyond_safe new_manager)
       = [Returned sender_A 9007199254740992, Returned sender_A 9007199254740992]"
  by (simp add: reset_between_def beyond_safe_def next_is_6_def new_manager_def run_def
      getNextNonce_call_def getNextNonce_wake_def getNextNonce_reply_def enter_def
      finally_block_def reset_def js_plus_small)

text \<open>
  C1 (amended). Take any schedule of calls, wake-ups and network answers (with any
  pending counts, in any interleaving) that holds no \<^verbatim>\<open>reset\<close> of sender \<open>a\<close>, started
  where no reservation has returned yet, and let the nonces returned for \<open>a\<close> be safe
  integers (below \<open>2 ^ 53\<close>). Then these nonces, in the order of return, are strictly
  ascending; each is its predecessor plus one unless the network reported a higher
  count at that reservation (no gap of the sequencer's own); every call that returned
  is listed once; and no two calls have returned the same nonce.
\<close>

theorem getNextNonce_concurrent_distinct_gapless:
  assumes "Reset a \<notin> set evs" and "returned m = []" and "results a (calls m) = []"
    and "\<forall>p \<in> set (history a (run evs m)). isSafeInteger (snd p)"
  shows "sorted_wrt (<) (map snd (history a (run evs m)))
       \<and> gapless (history a (run evs m))
       \<and> mset (results a (calls (run evs m))) = mset (map snd (history a (run evs m)))
       \<and> (\<forall>i j x y. i < j \<and> j < length (calls (run evs m))
             \<and> calls (run evs m) ! i = Returned a x \<and> calls (run evs m) ! j = Returned a y
             \<longrightarrow> x \<noteq> y)"
proof -
  let ?m' = "run evs m"
  have h0: "history a m = []"
    using assms(2) by (simp add: history_def)
  have "tracked a m"
    by (simp add: tracked_def h0 chained_def)
  then have "tracked a ?m'"
    using assms(1) by (rule tracked_run[rotated])
  then have "chained (history a ?m')"
    by (simp add: tracked_def)
  then have g: "gapless (history a ?m')"
    using assms(4) by (rule chained_gapless)
  then have asc: "sorted_wrt (<) (map snd (history a ?m'))"
    by (rule gapless_ascending)
  have "accounted a m"
    by (simp add: accounted_def h0 assms(3))
  then have "accounted a ?m'"
    by (rule accounted_run)
  then have acc: "mset (results a (calls ?m')) = mset (map snd (history a ?m'))"
    by (simp add: accounted_def)
  have "distinct (map snd (history a ?m'))"
    using asc by (simp add: strict_sorted_iff)
  then have "distinct (results a (calls ?m'))"
    using acc by (metis mset_eq_imp_distinct_iff)
  then have "\<forall>i j x y. i < j \<and> j < length (calls ?m')
             \<and> calls ?m' ! i = Returned a x \<and> calls ?m' ! j = Returned a y \<longrightarrow> x \<noteq> y"
    using results_distinct_nth by blast
  with asc g acc show ?thesis by blast
qed

lemma two_concurrent_run:
  "run two_concurrent next_is_6 =
     \<lparr>nonces = [sender_A \<mapsto> 7], locks = Map.empty, resolved = {0, 1}, created = 2,
      calls = [Returned sender_A 6, Returned sender_A 7],
      returned = [(sender_A, 6, 6), (sender_A, 6, 7)]\<rparr>"
  by (simp add: two_concurrent_def next_is_6_def new_manager_def run_def
      getNextNonce_call_def getNextNonce_wake_def getNextNonce_reply_def enter_def
      finally_block_def insert_commute js_plus_small)

theorem getNextNonce_concurrent_distinct_gapless_witness:
  "Reset sender_A \<notin> set two_concurrent \<and> returned next_is_6 = []
   \<and> results sender_A (calls next_is_6) = []
   \<and> history sender_A (run two_concurrent next_is_6) = [(6, 6), (6, 7)]
   \<and> isSafeInteger 6 \<and> isSafeInteger 7
   \<and> calls (run two_concurrent next_is_6) = [Returned sender_A 6, Returned sender_A 7]
   \<and> sorted_wrt (<) (map snd (history sender_A (run two_concurrent next_is_6)))
   \<and> gapless (history sender_A (run two_concurrent next_is_6))"
proof -
  have h1: "Reset sender_A \<notin> set two_concurrent"
    by (simp add: two_concurrent_def)
  have h2: "returned next_is_6 = []"
    by (simp add: next_is_6_def new_manager_def)
  have h3: "results sender_A (calls next_is_6) = []"
    by (simp add: next_is_6_def new_manager_def results_def)
  have hist: "history sender_A (run two_concurrent next_is_6) = [(6, 6), (6, 7)]"
    by (simp add: two_concurrent_run history_def)
  have safe: "isSafeInteger 6" "isSafeInteger 7"
    by (simp_all add: isSafeInteger_def)
  have h4: "\<forall>p \<in> set (history sender_A (run two_concurrent next_is_6)). isSafeInteger (snd p)"
    by (simp add: hist safe)
  show ?thesis
    using h1 h2 h3 hist safe getNextNonce_concurrent_distinct_gapless[OF h1 h2 h3 h4]
    by (simp add: two_concurrent_run)
qed

section \<open>NonceManager: one reservation\<close>

lemma first_pending_eq:
  "first_pending = \<lparr>nonces = [sender_A \<mapsto> 4], locks = [sender_A \<mapsto> 0], resolved = {},
      created = 1, calls = [AwaitNet sender_A 0], returned = []\<rparr>"
  by (simp add: first_pending_def next_is_5_def new_manager_def getNextNonce_call_def enter_def)

lemma reply_returns:
  assumes "i < length (calls m)" and "calls m ! i = AwaitNet a q"
  shows "calls (getNextNonce_reply i (Inr n) m) ! i = Returned a (max n (localNext m a))"
    and "lastUsed (getNextNonce_reply i (Inr n) m) a = max n (localNext m a)"
  using assms
  by (auto simp: getNextNonce_reply_def finally_block_def localNext_def lastUsed_def Let_def
      split: option.splits)

text \<open>
  C4 (as stated, refuted). Sender A has last used nonce \<open>2 ^ 53\<close> and the network
  reports 0. The reservation returns \<open>2 ^ 53\<close>, the nonce already used, and the local
  next value is \<open>2 ^ 53\<close> before and after: it does not advance to the returned nonce
  plus one.
\<close>

theorem reservation_beyond_safe_counterexample:
  "lastUsed at_limit sender_A = 9007199254740992
   \<and> calls (reserve (Inr 0) sender_A at_limit) = [Returned sender_A 9007199254740992]
   \<and> localNext (reserve (Inr 0) sender_A at_limit) sender_A = 9007199254740992"
  by (simp add: reserve_def at_limit_def new_manager_def lastUsed_def localNext_def
      getNextNonce_call_def getNextNonce_reply_def enter_def finally_block_def js_plus_small)

text \<open>
  C4 (amended). Let the last used nonce and the nonce assigned be safe integers
  (magnitude below \<open>2 ^ 53\<close>). When the network query of a reservation answers with a
  pending count, the call returns the maximum of that count and the locally tracked
  next value, which is the last used nonce plus one, and the local next value becomes
  the returned nonce plus one; in particular a network count below the local next
  value loses against it. The React variant of the Privy integration computes the
  same maximum. In the scenario with local next 5 and a network count of 5, the call
  returns 5 and next becomes 6.
\<close>

theorem reservation_is_max:
  assumes "i < length (calls m)" and "calls m ! i = AwaitNet a q"
    and "isSafeInteger (lastUsed m a)"
    and "isSafeInteger (max networkNonce (lastUsed m a + 1))"
  shows "localNext m a = lastUsed m a + 1
       \<and> calls (getNextNonce_reply i (Inr networkNonce) m) ! i
           = Returned a (max networkNonce (localNext m a))
       \<and> localNext (getNextNonce_reply i (Inr networkNonce) m) a
           = max networkNonce (localNext m a) + 1
       \<and> (networkNonce < localNext m a \<longrightarrow>
            calls (getNextNonce_reply i (Inr networkNonce) m) ! i = Returned a (localNext m a))
       \<and> (isSafeInteger lastNonceRef \<longrightarrow>
            getNextNonce_privy (Inr networkNonce) lastNonceRef
              = (Inr (max networkNonce (lastNonceRef + 1)), max networkNonce (lastNonceRef + 1)))"
proof -
  let ?m' = "getNextNonce_reply i (Inr networkNonce) m"
  have nxt: "localNext m a = lastUsed m a + 1"
    using assms(3) by (simp add: localNext_def js_plus_safe)
  have ret: "calls ?m' ! i = Returned a (max networkNonce (localNext m a))"
    and last: "lastUsed ?m' a = max networkNonce (localNext m a)"
    using reply_returns[OF assms(1,2)] by auto
  have "localNext ?m' a = js_plus (max networkNonce (lastUsed m a + 1)) 1"
    by (simp add: localNext_def[of ?m'] last nxt)
  then have adv: "localNext ?m' a = max networkNonce (localNext m a) + 1"
    using assms(4) by (simp add: js_plus_safe nxt)
  have lower: "networkNonce < localNext m a \<longrightarrow> calls ?m' ! i = Returned a (localNext m a)"
    using ret by (simp add: max_def)
  have privy: "isSafeInteger lastNonceRef \<longrightarrow>
      getNextNonce_privy (Inr networkNonce) lastNonceRef
        = (Inr (max networkNonce (lastNonceRef + 1)), max networkNonce (lastNonceRef + 1))"
    by (auto simp: getNextNonce_privy_def js_plus_safe max_def Let_def)
  from nxt ret adv lower privy show ?thesis by blast
qed

theorem reservation_is_max_witness:
  "0 < length (calls first_pending) \<and> calls first_pending ! 0 = AwaitNet sender_A 0
   \<and> lastUsed first_pending sender_A = 4 \<and> isSafeInteger 4 \<and> isSafeInteger 5
   \<and> localNext first_pending sender_A = 5
   \<and> calls (getNextNonce_reply 0 (Inr 5) first_pending) ! 0 = Returned sender_A 5
   \<and> localNext (getNextNonce_reply 0 (Inr 5) first_pending) sender_A = 6
   \<and> getNextNonce_privy (Inr 5) 4 = (Inr 5, 5)"
proof -
  have h1: "0 < length (calls first_pending)"
    by (simp add: first_pending_eq)
  have h2: "calls first_pending ! 0 = AwaitNet sender_A 0"
    by (simp add: first_pending_eq)
  have l: "lastUsed first_pending sender_A = 4"
    by (simp add: first_pending_eq lastUsed_def)
  have safe: "isSafeInteger 4" "isSafeInteger 5"
    by (simp_all add: isSafeInteger_def)
  have h3: "isSafeInteger (lastUsed first_pending sender_A)"
    by (simp add: l safe)
  have h4: "isSafeInteger (max 5 (lastUsed first_pending sender_A + 1))"
    by (simp add: l safe)
  show ?thesis
    using h1 h2 l safe reservation_is_max[OF h1 h2 h3 h4, of 4]
    by simp
qed

section \<open>NonceManager: successive reservations\<close>

lemma lastUsed_call: "lastUsed (getNextNonce_call b m) a = lastUsed m a"
  by (simp add: lastUsed_def getNextNonce_call_def enter_def split: option.splits)

lemma lastUsed_wake: "lastUsed (getNextNonce_wake i m) a = lastUsed m a"
  by (simp add: lastUsed_def getNextNonce_wake_def enter_def split: option.splits call.splits)

lemma lastUsed_reply:
  assumes "x \<le> lastUsed m a" and "isSafeInteger x"
  shows "x \<le> lastUsed (getNextNonce_reply i rep m) a"
proof -
  have "x < js_plus (lastUsed m a) 1"
    using assms by (rule js_plus_above)
  then show ?thesis
    using assms(1)
    by (auto simp: getNextNonce_reply_def finally_block_def lastUsed_def Let_def
        split: option.splits call.splits sum.splits)
qed

lemma lastUsed_step:
  assumes "e \<noteq> Reset a" and "x \<le> lastUsed m a" and "isSafeInteger x" and "nonces m a \<noteq> None"
  shows "x \<le> lastUsed (step e m) a \<and> nonces (step e m) a \<noteq> None"
proof (cases e)
  case (NetReply i rep)
  have "nonces (getNextNonce_reply i rep m) a \<noteq> None"
    using assms(4)
    by (auto simp: getNextNonce_reply_def finally_block_def Let_def
        split: option.splits call.splits sum.splits)
  then show ?thesis
    using NetReply lastUsed_reply[OF assms(2,3)] by simp
next
  case (Call b)
  then show ?thesis
    using assms by (simp add: lastUsed_call) (simp add: getNextNonce_call_def enter_def split: option.splits)
next
  case (Wake i)
  then show ?thesis
    using assms by (simp add: lastUsed_wake)
      (simp add: getNextNonce_wake_def enter_def split: option.splits call.splits)
next
  case (Reset b)
  then show ?thesis
    using assms by (auto simp: lastUsed_def reset_def)
qed

lemma lastUsed_run:
  assumes "Reset a \<notin> set evs" and "x \<le> lastUsed m a" and "isSafeInteger x"
    and "nonces m a \<noteq> None"
  shows "x \<le> lastUsed (run evs m) a"
  using assms
proof (induction evs arbitrary: m)
  case Nil
  then show ?case by (simp add: run_def)
next
  case (Cons e evs)
  have "x \<le> lastUsed (step e m) a \<and> nonces (step e m) a \<noteq> None"
    using Cons.prems by (intro lastUsed_step) auto
  then have "x \<le> lastUsed (run evs (step e m)) a"
    using Cons.prems by (intro Cons.IH) auto
  then show ?case by (simp add: run_def)
qed

text \<open>
  C5 (as stated, refuted). With \<^verbatim>\<open>reset\<close> of the sender between two successive
  reservations, the first returns 5 and the second, for which the network reports 3,
  returns 3. And when the network reports \<open>2 ^ 53\<close> and then 0, both reservations
  return \<open>2 ^ 53\<close>, in NonceManager and in the per-chain React variant.
\<close>

theorem successive_reservations_repeat_counterexample:
  "calls (reserve (Inr 3) sender_A (reset sender_A (reserve (Inr 5) sender_A next_is_5)))
     = [Returned sender_A 5, Returned sender_A 3]
   \<and> calls (reserve (Inr 0) sender_A (reserve (Inr 9007199254740992) sender_A new_manager))
     = [Returned sender_A 9007199254740992, Returned sender_A 9007199254740992]
   \<and> fst (getNextNonce_perChain (Inr 9007199254740992) CHAIN_ID Map.empty)
     = Inr 9007199254740992
   \<and> fst (getNextNonce_perChain (Inr 0) CHAIN_ID
            (snd (getNextNonce_perChain (Inr 9007199254740992) CHAIN_ID Map.empty)))
     = Inr 9007199254740992"
  by (simp add: reserve_def next_is_5_def new_manager_def reset_def getNextNonce_perChain_def
      getNextNonce_call_def getNextNonce_reply_def enter_def finally_block_def js_plus_small)

text \<open>
  C5 (amended). Let a reservation of sender \<open>a\<close> return a safe integer (below
  \<open>2 ^ 53\<close>), let anything follow except a \<^verbatim>\<open>reset\<close> of \<open>a\<close> (reservations of other
  senders, further calls), and let another reservation of \<open>a\<close> return: whatever integer
  pending counts \<open>n1\<close> and \<open>n2\<close> the network reported, the second nonce is strictly greater than
  the first, and the local next value stays above the first nonce throughout. The
  per-chain React variant behaves alike for two successive reservations on one chain.
\<close>

theorem successive_reservations_increase:
  assumes "i < length (calls m)" and "calls m ! i = AwaitNet a q"
    and "Reset a \<notin> set evs"
    and "j < length (calls (run evs (getNextNonce_reply i (Inr n1) m)))"
    and "calls (run evs (getNextNonce_reply i (Inr n1) m)) ! j = AwaitNet a q'"
    and "isSafeInteger (max n1 (localNext m a))"
  shows "(\<exists>x y. calls (getNextNonce_reply i (Inr n1) m) ! i = Returned a x
           \<and> calls (getNextNonce_reply j (Inr n2) (run evs (getNextNonce_reply i (Inr n1) m))) ! j
               = Returned a y
           \<and> x < localNext (run evs (getNextNonce_reply i (Inr n1) m)) a
           \<and> x < y)
       \<and> (fst (getNextNonce_perChain (Inr n1) chainId ref) = Inr x' \<and> isSafeInteger x' \<longrightarrow>
           (\<exists>y. fst (getNextNonce_perChain (Inr n2) chainId
                     (snd (getNextNonce_perChain (Inr n1) chainId ref))) = Inr y
              \<and> x' < y))"
proof
  let ?m1 = "getNextNonce_reply i (Inr n1) m"
  let ?m2 = "run evs ?m1"
  let ?x = "max n1 (localNext m a)"
  let ?y = "max n2 (localNext ?m2 a)"
  have x: "calls ?m1 ! i = Returned a ?x" and l1: "lastUsed ?m1 a = ?x"
    using reply_returns[OF assms(1,2)] by auto
  have some: "nonces ?m1 a \<noteq> None"
    using assms(1,2) by (simp add: getNextNonce_reply_def finally_block_def Let_def)
  have "?x \<le> lastUsed ?m2 a"
    using assms(3) _ assms(6) some by (rule lastUsed_run) (simp add: l1)
  then have lt: "?x < localNext ?m2 a"
    unfolding localNext_def[of ?m2] using assms(6) by (rule js_plus_above)
  then have xy: "?x < ?y"
    by (simp add: less_max_iff_disj)
  have y: "calls (getNextNonce_reply j (Inr n2) ?m2) ! j = Returned a ?y"
    using reply_returns(1)[OF assms(4,5)] by simp
  from x y lt xy
  show "\<exists>x y. calls ?m1 ! i = Returned a x
           \<and> calls (getNextNonce_reply j (Inr n2) ?m2) ! j = Returned a y
           \<and> x < localNext ?m2 a \<and> x < y"
    by blast
next
  show "fst (getNextNonce_perChain (Inr n1) chainId ref) = Inr x' \<and> isSafeInteger x' \<longrightarrow>
           (\<exists>y. fst (getNextNonce_perChain (Inr n2) chainId
                     (snd (getNextNonce_perChain (Inr n1) chainId ref))) = Inr y
              \<and> x' < y)"
    by (auto simp: getNextNonce_perChain_def Let_def js_plus_safe split: option.splits)
qed

lemma lagging_run:
  "run lagging (getNextNonce_reply 0 (Inr 5) first_pending) =
     \<lparr>nonces = [sender_A \<mapsto> 5, sender_B \<mapsto> 9], locks = [sender_A \<mapsto> 2], resolved = {0, 1},
      created = 3, calls = [Returned sender_A 5, Returned sender_B 9, AwaitNet sender_A 2],
      returned = [(sender_A, 5, 5), (sender_B, 9, 9)]\<rparr>"
  by (simp add: lagging_def first_pending_eq run_def sender_A_def sender_B_def
      getNextNonce_call_def getNextNonce_wake_def getNextNonce_reply_def enter_def
      finally_block_def insert_commute numeral_2_eq_2 js_plus_small)

theorem successive_reservations_increase_witness:
  "0 < length (calls first_pending) \<and> calls first_pending ! 0 = AwaitNet sender_A 0
   \<and> Reset sender_A \<notin> set lagging
   \<and> 2 < length (calls (run lagging (getNextNonce_reply 0 (Inr 5) first_pending)))
   \<and> calls (run lagging (getNextNonce_reply 0 (Inr 5) first_pending)) ! 2 = AwaitNet sender_A 2
   \<and> localNext first_pending sender_A = 5 \<and> isSafeInteger 5
   \<and> calls (getNextNonce_reply 0 (Inr 5) first_pending) ! 0 = Returned sender_A 5
   \<and> calls (getNextNonce_reply 2 (Inr 3)
               (run lagging (getNextNonce_reply 0 (Inr 5) first_pending))) ! 2 = Returned sender_A 6
   \<and> fst (getNextNonce_perChain (Inr 5) CHAIN_ID Map.empty) = Inr 5
   \<and> fst (getNextNonce_perChain (Inr 3) CHAIN_ID
             (snd (getNextNonce_perChain (Inr 5) CHAIN_ID Map.empty))) = Inr 6"
proof -
  have h1: "0 < length (calls first_pending)"
    by (simp add: first_pending_eq)
  have h2: "calls first_pending ! 0 = AwaitNet sender_A 0"
    by (simp add: first_pending_eq)
  have h3: "Reset sender_A \<notin> set lagging"
    by (simp add: lagging_def)
  have h4: "2 < length (calls (run lagging (getNextNonce_reply 0 (Inr 5) first_pending)))"
    by (simp add: lagging_run)
  have h5: "calls (run lagging (getNextNonce_reply 0 (Inr 5) first_pending)) ! 2 = AwaitNet sender_A 2"
    by (simp add: lagging_run)
  have l: "localNext first_pending sender_A = 5"
    by (simp add: first_pending_eq localNext_def lastUsed_def js_plus_small)
  have safe: "isSafeInteger 5"
    by (simp add: isSafeInteger_def)
  have h6: "isSafeInteger (max 5 (localNext first_pending sender_A))"
    by (simp add: l safe)
  have first: "calls (getNextNonce_reply 0 (Inr 5) first_pending) ! 0 = Returned sender_A 5"
    by (simp add: first_pending_eq getNextNonce_reply_def finally_block_def js_plus_small)
  have second: "calls (getNextNonce_reply 2 (Inr 3)
               (run lagging (getNextNonce_reply 0 (Inr 5) first_pending))) ! 2 = Returned sender_A 6"
    by (simp only: lagging_run)
       (simp add: getNextNonce_reply_def finally_block_def sender_A_def sender_B_def js_plus_small)
  have hook: "fst (getNextNonce_perChain (Inr 5) CHAIN_ID Map.empty) = Inr 5"
    "fst (getNextNonce_perChain (Inr 3) CHAIN_ID
             (snd (getNextNonce_perChain (Inr 5) CHAIN_ID Map.empty))) = Inr 6"
    by (simp_all add: getNextNonce_perChain_def js_plus_small)
  show ?thesis
    using h1 h2 h3 h4 h5 l safe first second hook
      successive_reservations_increase[OF h1 h2 h3 h4 h5 h6, of 3 CHAIN_ID Map.empty 5]
    by simp
qed

section \<open>NonceManager: a failing network query\<close>

text \<open>
  C2 (as stated, refuted). With local next 5, a reservation whose network query fails
  with a transport error does not return 5: the call is rejected with that error and
  no nonce is returned.
\<close>

theorem query_failure_fails_reservation_counterexample:
  "calls (reserve (Inl (Error ''HTTP request failed.'')) sender_A next_is_5)
     = [Threw sender_A (Error ''HTTP request failed.'')]
   \<and> returned (reserve (Inl (Error ''HTTP request failed.'')) sender_A next_is_5) = []"
  by (simp add: reserve_def next_is_5_def new_manager_def
      getNextNonce_call_def getNextNonce_reply_def enter_def finally_block_def)

text \<open>
  C2 (amended). When the network query of a reservation fails, the reservation fails
  with the error of the query and returns no nonce; so do the two React variants, which
  leave their last nonce as it was.
\<close>

theorem query_failure_rejects_reservation:
  assumes "i < length (calls m)" and "calls m ! i = AwaitNet a q"
  shows "calls (getNextNonce_reply i (Inl e) m) ! i = Threw a e
       \<and> returned (getNextNonce_reply i (Inl e) m) = returned m
       \<and> getNextNonce_privy (Inl e) lastNonceRef = (Inl e, lastNonceRef)
       \<and> getNextNonce_perChain (Inl e) chainId ref = (Inl e, ref)"
  using assms
  by (simp add: getNextNonce_reply_def finally_block_def getNextNonce_privy_def
      getNextNonce_perChain_def)

theorem query_failure_rejects_reservation_witness:
  "0 < length (calls first_pending) \<and> calls first_pending ! 0 = AwaitNet sender_A 0
   \<and> calls (getNextNonce_reply 0 (Inl (Error ''HTTP request failed.'')) first_pending) ! 0
       = Threw sender_A (Error ''HTTP request failed.'')
   \<and> returned (getNextNonce_reply 0 (Inl (Error ''HTTP request failed.'')) first_pending) = []"
proof -
  have h1: "0 < length (calls first_pending)"
    by (simp add: first_pending_eq)
  have h2: "calls first_pending ! 0 = AwaitNet sender_A 0"
    by (simp add: first_pending_eq)
  have "returned first_pending = []"
    by (simp add: first_pending_eq)
  then show ?thesis
    using h1 h2 query_failure_rejects_reservation[OF h1 h2, of "Error ''HTTP request failed.''"]
    by simp
qed

text \<open>
  C10. When the network query of a reservation of \<open>a\<close> throws, the lock entry of \<open>a\<close> is
  deleted and the promise of the call is resolved, the stored nonces are unchanged, a
  later call for \<open>a\<close> goes straight to its network query, and a call that waited on the
  promise proceeds when it wakes up.
\<close>

theorem query_failure_releases_lock:
  assumes "i < length (calls m)" and "calls m ! i = AwaitNet a q"
  shows "locks (getNextNonce_reply i (Inl e) m) a = None
       \<and> q \<in> resolved (getNextNonce_reply i (Inl e) m)
       \<and> nonces (getNextNonce_reply i (Inl e) m) = nonces m
       \<and> calls (getNextNonce_call a (getNextNonce_reply i (Inl e) m))
           = calls (getNextNonce_reply i (Inl e) m)
             @ [AwaitNet a (created (getNextNonce_reply i (Inl e) m))]
       \<and> (\<forall>k. k < length (calls m) \<and> calls m ! k = AwaitLock a q \<longrightarrow>
             calls (getNextNonce_wake k (getNextNonce_reply i (Inl e) m)) ! k
               = AwaitNet a (created (getNextNonce_reply i (Inl e) m)))"
  using assms
  by (auto simp: getNextNonce_reply_def finally_block_def getNextNonce_call_def
      getNextNonce_wake_def enter_def nth_list_update)

lemma one_waiting_eq:
  "one_waiting = \<lparr>nonces = [sender_A \<mapsto> 4], locks = [sender_A \<mapsto> 0], resolved = {},
      created = 1, calls = [AwaitNet sender_A 0, AwaitLock sender_A 0], returned = []\<rparr>"
  by (simp add: one_waiting_def run_def next_is_5_def new_manager_def getNextNonce_call_def enter_def)

theorem query_failure_releases_lock_witness:
  "0 < length (calls one_waiting) \<and> calls one_waiting ! 0 = AwaitNet sender_A 0
   \<and> 1 < length (calls one_waiting) \<and> calls one_waiting ! 1 = AwaitLock sender_A 0
   \<and> locks (getNextNonce_reply 0 (Inl (Error ''timeout'')) one_waiting) sender_A = None
   \<and> nonces (getNextNonce_reply 0 (Inl (Error ''timeout'')) one_waiting) sender_A = Some 4
   \<and> calls (getNextNonce_wake 1 (getNextNonce_reply 0 (Inl (Error ''timeout'')) one_waiting)) ! 1
       = AwaitNet sender_A 1"
proof -
  have h1: "0 < length (calls one_waiting)"
    by (simp add: one_waiting_eq)
  have h2: "calls one_waiting ! 0 = AwaitNet sender_A 0"
    by (simp add: one_waiting_eq)
  have w: "1 < length (calls one_waiting)" "calls one_waiting ! 1 = AwaitLock sender_A 0"
    by (simp_all add: one_waiting_eq)
  have c: "created (getNextNonce_reply 0 (Inl (Error ''timeout'')) one_waiting) = 1"
    "nonces one_waiting sender_A = Some 4"
    by (simp_all add: one_waiting_eq getNextNonce_reply_def finally_block_def)
  show ?thesis
    using h1 h2 w c query_failure_releases_lock[OF h1 h2, of "Error ''timeout''"]
    by simp
qed

section \<open>submitWithRetry\<close>

lemma attempt_rest: "rest tx' = rest tx \<Longrightarrow> attempt client tx' i = attempt client tx i"
proof -
  assume "rest tx' = rest tx"
  then have "\<And>b. tx'\<lparr>blockhash := b\<rparr> = tx\<lparr>blockhash := b\<rparr>" by simp
  then show ?thesis by (simp add: attempt_def split: sum.splits)
qed

lemma loop_cases:
  "submitWithRetry_loop client M i tx sent =
     (if int i < M then
        (if retried (attempt client tx i)
         then submitWithRetry_loop client M (Suc i) (carried client i tx) (sent @ submitted client i tx)
         else (attempt client tx i, sent @ submitted client i tx))
      else (Inl (Error ''Transaction expired''), sent))"
  by (subst submitWithRetry_loop.simps)
     (auto simp: attempt_def retried_def carried_def submitted_def Let_def split: sum.splits)

lemma rest_carried: "rest (carried client i tx) = rest tx"
  by (simp add: carried_def split: sum.splits)

lemma loop_stop:
  assumes "\<forall>j. i \<le> j \<and> j < k \<longrightarrow> retried (attempt client tx j)"
    and "\<not> retried (attempt client tx k)" and "int k < M" and "i \<le> k" and "rest tx' = rest tx"
  shows "fst (submitWithRetry_loop client M i tx' sent) = attempt client tx k
       \<and> (\<forall>p \<in> set (snd (submitWithRetry_loop client M i tx' sent)). p \<in> set sent \<or> fst p \<le> k)"
  using assms
proof (induction "k - i" arbitrary: i tx' sent)
  case 0
  then have ik: "i = k" by simp
  have a: "attempt client tx' i = attempt client tx i"
    using "0.prems"(5) by (rule attempt_rest)
  show ?case
    using 0 ik a by (subst (1 2) loop_cases) (auto simp: submitted_def split: sum.splits)
next
  case (Suc n)
  have a: "attempt client tx' i = attempt client tx i"
    using Suc.prems(5) by (rule attempt_rest)
  have ik: "i < k" "int i < M" using Suc by auto
  then have re: "retried (attempt client tx' i)" using a Suc.prems(1) by simp
  have "fst (submitWithRetry_loop client M (Suc i) (carried client i tx') (sent @ submitted client i tx'))
          = attempt client tx k
       \<and> (\<forall>p \<in> set (snd (submitWithRetry_loop client M (Suc i) (carried client i tx')
                             (sent @ submitted client i tx'))).
             p \<in> set (sent @ submitted client i tx') \<or> fst p \<le> k)"
    using Suc.hyps(2) Suc.prems ik
    by (intro Suc.hyps(1)) (auto simp: rest_carried)
  moreover have "submitWithRetry_loop client M i tx' sent
      = submitWithRetry_loop client M (Suc i) (carried client i tx') (sent @ submitted client i tx')"
    using ik re by (subst loop_cases) simp
  moreover have "\<forall>p \<in> set (submitted client i tx'). fst p \<le> k"
    using ik by (auto simp: submitted_def split: sum.splits)
  ultimately show ?case by auto
qed

lemma loop_exhaust:
  assumes "\<forall>j. i \<le> j \<and> int j < M \<longrightarrow> retried (attempt client tx j)" and "rest tx' = rest tx"
  shows "fst (submitWithRetry_loop client M i tx' sent) = Inl (Error ''Transaction expired'')"
  using assms
proof (induction "nat (M - int i)" arbitrary: i tx' sent)
  case 0
  then show ?case by (subst loop_cases) simp
next
  case (Suc n)
  have a: "attempt client tx' i = attempt client tx i"
    using Suc.prems(2) by (rule attempt_rest)
  have iM: "int i < M" using Suc.hyps(2) by simp
  then have re: "retried (attempt client tx' i)" using a Suc.prems(1) by simp
  have "fst (submitWithRetry_loop client M (Suc i) (carried client i tx') (sent @ submitted client i tx'))
          = Inl (Error ''Transaction expired'')"
    using Suc.hyps(2) Suc.prems
    by (intro Suc.hyps(1)) (auto simp: rest_carried)
  moreover have "submitWithRetry_loop client M i tx' sent
      = submitWithRetry_loop client M (Suc i) (carried client i tx') (sent @ submitted client i tx')"
    using iM re by (subst loop_cases) simp
  ultimately show ?case by simp
qed

lemma length_submitted: "length (submitted client i tx) \<le> 1"
  by (simp add: submitted_def split: sum.splits)

lemma loop_bound:
  "length (snd (submitWithRetry_loop client M i tx sent)) \<le> length sent + nat (M - int i)"
proof (induction "nat (M - int i)" arbitrary: i tx sent)
  case 0
  then show ?case by (subst loop_cases) simp
next
  case (Suc n)
  have iM: "int i < M" using Suc.hyps(2) by simp
  have "length (snd (submitWithRetry_loop client M (Suc i) (carried client i tx) (sent @ submitted client i tx)))
      \<le> length (sent @ submitted client i tx) + nat (M - int (Suc i))"
    using Suc.hyps(2) by (intro Suc.hyps(1)) simp
  also have "\<dots> \<le> length sent + nat (M - int i)"
    using length_submitted[of client i tx] iM by simp
  finally have rec: "length (snd (submitWithRetry_loop client M (Suc i) (carried client i tx)
      (sent @ submitted client i tx))) \<le> length sent + nat (M - int i)" .
  have "1 \<le> nat (M - int i)"
    using iM by simp
  then have "length (sent @ submitted client i tx) \<le> length sent + nat (M - int i)"
    using length_submitted[of client i tx] by simp
  then show ?case
    using rec iM by (subst loop_cases) simp
qed

lemma loop_sent:
  assumes "rest tx' = rest tx"
    and "\<forall>p \<in> set sent. sent_ok client tx M p \<and> fst p < i"
    and "sorted_wrt (<) (map fst sent)"
  shows "(\<forall>p \<in> set (snd (submitWithRetry_loop client M i tx' sent)). sent_ok client tx M p)
       \<and> sorted_wrt (<) (map fst (snd (submitWithRetry_loop client M i tx' sent)))"
  using assms
proof (induction "nat (M - int i)" arbitrary: i tx' sent)
  case 0
  then show ?case by (subst (1 2) loop_cases) simp
next
  case (Suc n)
  have iM: "int i < M" using Suc.hyps(2) by simp
  let ?sent = "sent @ submitted client i tx'"
  have new: "\<forall>p \<in> set (submitted client i tx'). sent_ok client tx M p \<and> fst p = i"
    using iM Suc.prems(1) by (auto simp: submitted_def sent_ok_def split: sum.splits)
  then have ok: "\<forall>p \<in> set ?sent. sent_ok client tx M p \<and> fst p < Suc i"
    using Suc.prems(2) by (auto simp: less_Suc_eq)
  have so: "sorted_wrt (<) (map fst ?sent)"
    using Suc.prems(2,3) new by (auto simp: sorted_wrt_append submitted_def split: sum.splits)
  have "(\<forall>p \<in> set (snd (submitWithRetry_loop client M (Suc i) (carried client i tx') ?sent)).
            sent_ok client tx M p)
       \<and> sorted_wrt (<) (map fst (snd (submitWithRetry_loop client M (Suc i) (carried client i tx') ?sent)))"
    using Suc.hyps(2) Suc.prems(1) ok so
    by (intro Suc.hyps(1)) (auto simp: rest_carried)
  then show ?case
    using iM ok so by (subst (1 2) loop_cases) auto
qed


lemma includes_blockhash:
  "str_includes ''blockhash expired'' ''blockhash''"
  "\<not> str_includes ''fetch failed'' ''blockhash''"
  "\<not> str_includes ''insufficient funds'' ''blockhash''"
  by (simp_all add: str_includes_def sublist_code)

text \<open>
  C3 (as stated, refuted). A transport failure of the first submission (the message of
  a failed \<^verbatim>\<open>fetch\<close>) is not retried: the call throws it after one submission, although
  the next attempt would have been accepted.
\<close>

theorem transport_failure_not_retried_counterexample:
  "submitWithRetry_default flaky_client tx0
     = (Inl (Error ''fetch failed''), [(0, tx0\<lparr>blockhash := ''0xb1''\<rparr>)])
   \<and> attempt flaky_client tx0 1 = Inr ''receipt''"
  by (simp add: submitWithRetry_default_def submitWithRetry_def submitWithRetry_loop.simps
      flaky_client_def attempt_def includes_blockhash)

text \<open>
  C3 (amended). submitWithRetry retries exactly the failures whose message contains
  \<^verbatim>\<open>blockhash\<close>. The first iteration whose outcome is anything else (an acceptance, or
  a failure of any other kind, transport failures included) ends the call with that
  outcome, and nothing is submitted after it. When every iteration below \<open>maxRetries\<close>
  fails with a \<^verbatim>\<open>blockhash\<close> message, the call throws \<^verbatim>\<open>Transaction expired\<close>. At most
  \<open>maxRetries\<close> submissions are made, three by default.
\<close>

theorem submitWithRetry_retries_blockhash_failures_only:
  "((\<forall>j<k. retried (attempt client tx j)) \<and> \<not> retried (attempt client tx k) \<and> int k < maxRetries
      \<longrightarrow> fst (submitWithRetry client tx maxRetries) = attempt client tx k
          \<and> (\<forall>p \<in> set (snd (submitWithRetry client tx maxRetries)). fst p \<le> k))
   \<and> ((\<forall>j. int j < maxRetries \<longrightarrow> retried (attempt client tx j))
      \<longrightarrow> fst (submitWithRetry client tx maxRetries) = Inl (Error ''Transaction expired''))
   \<and> length (snd (submitWithRetry client tx maxRetries)) \<le> nat maxRetries
   \<and> length (snd (submitWithRetry_default client tx)) \<le> 3"
proof (intro conjI impI)
  assume h: "(\<forall>j<k. retried (attempt client tx j)) \<and> \<not> retried (attempt client tx k)
             \<and> int k < maxRetries"
  have "fst (submitWithRetry_loop client maxRetries 0 tx []) = attempt client tx k
       \<and> (\<forall>p \<in> set (snd (submitWithRetry_loop client maxRetries 0 tx [])). p \<in> set [] \<or> fst p \<le> k)"
    using h by (intro loop_stop) auto
  then show "fst (submitWithRetry client tx maxRetries) = attempt client tx k"
    and "\<forall>p \<in> set (snd (submitWithRetry client tx maxRetries)). fst p \<le> k"
    by (simp_all add: submitWithRetry_def)
next
  assume "\<forall>j. int j < maxRetries \<longrightarrow> retried (attempt client tx j)"
  then show "fst (submitWithRetry client tx maxRetries) = Inl (Error ''Transaction expired'')"
    unfolding submitWithRetry_def by (intro loop_exhaust) auto
next
  show "length (snd (submitWithRetry client tx maxRetries)) \<le> nat maxRetries"
    using loop_bound[of client maxRetries 0 tx "[]"] by (simp add: submitWithRetry_def)
next
  show "length (snd (submitWithRetry_default client tx)) \<le> 3"
    using loop_bound[of client 3 0 tx "[]"]
    by (simp add: submitWithRetry_default_def submitWithRetry_def)
qed

lemma advancing_attempts:
  "attempt advancing_client tx0 0 = Inl (Error ''blockhash expired'')"
  "attempt advancing_client tx0 (Suc 0) = Inl (Error ''insufficient funds'')"
  by (simp_all add: attempt_def advancing_client_def)

lemma advancing_run:
  "submitWithRetry advancing_client tx0 3
     = (Inl (Error ''insufficient funds''),
        [(0, tx0\<lparr>blockhash := ''0xb1''\<rparr>), (1, tx0\<lparr>blockhash := ''0xb2''\<rparr>)])"
  by (simp add: submitWithRetry_def submitWithRetry_loop.simps advancing_client_def
      includes_blockhash)

theorem submitWithRetry_retries_blockhash_failures_only_witness:
  "retried (attempt advancing_client tx0 0) \<and> \<not> retried (attempt advancing_client tx0 1)
   \<and> fst (submitWithRetry advancing_client tx0 3) = Inl (Error ''insufficient funds'')
   \<and> retried (attempt expiring_client tx0 0) \<and> retried (attempt expiring_client tx0 1)
   \<and> retried (attempt expiring_client tx0 2)
   \<and> fst (submitWithRetry expiring_client tx0 3) = Inl (Error ''Transaction expired'')"
proof -
  have a0: "retried (attempt advancing_client tx0 0)"
    by (simp add: advancing_attempts retried_def includes_blockhash)
  then have h1: "\<forall>j<1. retried (attempt advancing_client tx0 j)"
    by simp
  have h2: "\<not> retried (attempt advancing_client tx0 1)"
    by (simp add: advancing_attempts retried_def includes_blockhash)
  have h3: "\<forall>j. int j < 3 \<longrightarrow> retried (attempt expiring_client tx0 j)"
    by (simp add: attempt_def expiring_client_def retried_def includes_blockhash)
  show ?thesis
    using a0 h1 h2 h3 advancing_attempts
      submitWithRetry_retries_blockhash_failures_only[of 1 advancing_client tx0 3]
      submitWithRetry_retries_blockhash_failures_only[of 0 expiring_client tx0 3]
    by simp
qed

text \<open>
  C6 (as stated, refuted). The client reports the same latest block reference twice; the
  first submission is rejected for its block reference, and the transaction submitted
  again is the very same one: same block reference, nothing rebuilt or signed anew.
\<close>

theorem retry_same_block_reference_counterexample:
  "submitWithRetry_default stale_client tx0
     = (Inr ''receipt'',
        [(0, tx0\<lparr>blockhash := ''0xb1''\<rparr>), (1, tx0\<lparr>blockhash := ''0xb1''\<rparr>)])"
  by (simp add: submitWithRetry_default_def submitWithRetry_def submitWithRetry_loop.simps
      stale_client_def includes_blockhash Let_def)

lemma loop_keeps: "set sent \<subseteq> set (snd (submitWithRetry_loop client M i tx sent))"
proof (induction "nat (M - int i)" arbitrary: i tx sent)
  case 0
  then show ?case by (subst loop_cases) simp
next
  case (Suc n)
  have "set (sent @ submitted client i tx)
      \<subseteq> set (snd (submitWithRetry_loop client M (Suc i) (carried client i tx)
                  (sent @ submitted client i tx)))"
    using Suc.hyps(2) by (intro Suc.hyps(1)) simp
  then show ?case
    by (subst loop_cases) auto
qed

lemma submitted_rest:
  "rest tx' = rest tx \<Longrightarrow> submitted client i tx' = submitted client i tx"
proof -
  assume "rest tx' = rest tx"
  then have "\<And>b. tx'\<lparr>blockhash := b\<rparr> = tx\<lparr>blockhash := b\<rparr>" by simp
  then show ?thesis by (simp add: submitted_def split: sum.splits)
qed

lemma loop_submits:
  assumes "\<forall>j. i \<le> j \<and> j < k \<longrightarrow> retried (attempt client tx j)"
    and "int k < M" and "i \<le> k" and "rest tx' = rest tx"
    and "getLatestBlockhash client k = Inr b"
  shows "(k, tx\<lparr>blockhash := b\<rparr>) \<in> set (snd (submitWithRetry_loop client M i tx' sent))"
  using assms
proof (induction "k - i" arbitrary: i tx' sent)
  case 0
  then have ik: "i = k" by simp
  have "submitted client k tx' = [(k, tx\<lparr>blockhash := b\<rparr>)]"
    using submitted_rest[OF "0.prems"(4), of client k] "0.prems"(5) by (simp add: submitted_def)
  then have here: "(k, tx\<lparr>blockhash := b\<rparr>) \<in> set (sent @ submitted client k tx')"
    by simp
  show ?case
  proof (cases "retried (attempt client tx' k)")
    case True
    have "submitWithRetry_loop client M k tx' sent
        = submitWithRetry_loop client M (Suc k) (carried client k tx') (sent @ submitted client k tx')"
      using True "0.prems"(2) by (subst loop_cases) simp
    then show ?thesis
      using here loop_keeps[of "sent @ submitted client k tx'" client M "Suc k" "carried client k tx'"]
        ik by auto
  next
    case False
    have "submitWithRetry_loop client M k tx' sent
        = (attempt client tx' k, sent @ submitted client k tx')"
      using False "0.prems"(2) by (subst loop_cases) simp
    then show ?thesis
      using here ik by simp
  qed
next
  case (Suc n)
  have a: "attempt client tx' i = attempt client tx i"
    using Suc.prems(4) by (rule attempt_rest)
  have ik: "i < k" "int i < M"
    using Suc by auto
  then have re: "retried (attempt client tx' i)"
    using a Suc.prems(1) by simp
  have "(k, tx\<lparr>blockhash := b\<rparr>)
      \<in> set (snd (submitWithRetry_loop client M (Suc i) (carried client i tx')
                  (sent @ submitted client i tx')))"
    using Suc.hyps(2) Suc.prems ik
    by (intro Suc.hyps(1)) (auto simp: rest_carried)
  moreover have "submitWithRetry_loop client M i tx' sent
      = submitWithRetry_loop client M (Suc i) (carried client i tx') (sent @ submitted client i tx')"
    using ik re by (subst loop_cases) simp
  ultimately show ?case by simp
qed

text \<open>
  C6 (amended). submitWithRetry submits in every iteration it reaches in which the
  request for the latest block reference succeeds: in the first one, and in each one
  that follows iterations failed with a message containing \<^verbatim>\<open>blockhash\<close>, as long as
  iterations remain below \<open>maxRetries\<close>. Every submission is the caller's transaction
  with its \<^verbatim>\<open>blockhash\<close> field set to the reference that the client returned in that same
  iteration and with all its other fields as they were, and the iterations of the
  submissions are strictly ascending. The reference is not compared with the one
  before, which it may equal.
\<close>

theorem submitWithRetry_submission_carries_requested_reference:
  "((\<forall>j<k. retried (attempt client tx j)) \<and> int k < maxRetries
      \<and> getLatestBlockhash client k = Inr b
      \<longrightarrow> (k, tx\<lparr>blockhash := b\<rparr>) \<in> set (snd (submitWithRetry client tx maxRetries)))
   \<and> (\<forall>p \<in> set (snd (submitWithRetry client tx maxRetries)).
       getLatestBlockhash client (fst p) = Inr (blockhash (snd p))
       \<and> snd p = tx\<lparr>blockhash := blockhash (snd p)\<rparr>
       \<and> int (fst p) < maxRetries)
   \<and> sorted_wrt (<) (map fst (snd (submitWithRetry client tx maxRetries)))"
proof (intro conjI impI)
  assume h: "(\<forall>j<k. retried (attempt client tx j)) \<and> int k < maxRetries
      \<and> getLatestBlockhash client k = Inr b"
  then show "(k, tx\<lparr>blockhash := b\<rparr>) \<in> set (snd (submitWithRetry client tx maxRetries))"
    unfolding submitWithRetry_def by (intro loop_submits) auto
next
  show "\<forall>p \<in> set (snd (submitWithRetry client tx maxRetries)).
       getLatestBlockhash client (fst p) = Inr (blockhash (snd p))
       \<and> snd p = tx\<lparr>blockhash := blockhash (snd p)\<rparr>
       \<and> int (fst p) < maxRetries"
    using loop_sent[of tx tx "[]" client maxRetries 0]
    by (simp add: submitWithRetry_def sent_ok_def)
next
  show "sorted_wrt (<) (map fst (snd (submitWithRetry client tx maxRetries)))"
    using loop_sent[of tx tx "[]" client maxRetries 0]
    by (simp add: submitWithRetry_def sent_ok_def)
qed

theorem submitWithRetry_submission_carries_requested_reference_witness:
  "retried (attempt advancing_client tx0 0) \<and> int 1 < 3
   \<and> getLatestBlockhash advancing_client 1 = Inr ''0xb2''
   \<and> (1, tx0\<lparr>blockhash := ''0xb2''\<rparr>) \<in> set (snd (submitWithRetry advancing_client tx0 3))
   \<and> snd (submitWithRetry advancing_client tx0 3)
       = [(0, tx0\<lparr>blockhash := ''0xb1''\<rparr>), (1, tx0\<lparr>blockhash := ''0xb2''\<rparr>)]"
proof -
  have a0: "retried (attempt advancing_client tx0 0)"
    by (simp add: advancing_attempts retried_def includes_blockhash)
  then have h1: "\<forall>j<1. retried (attempt advancing_client tx0 j)"
    by simp
  have h2: "getLatestBlockhash advancing_client 1 = Inr ''0xb2''"
    by (simp add: advancing_client_def)
  have sent: "snd (submitWithRetry advancing_client tx0 3)
       = [(0, tx0\<lparr>blockhash := ''0xb1''\<rparr>), (1, tx0\<lparr>blockhash := ''0xb2''\<rparr>)]"
    by (simp add: advancing_run)
  show ?thesis
    using a0 h1 h2 sent
      submitWithRetry_submission_carries_requested_reference[of 1 advancing_client tx0 3 "''0xb2''"]
    by simp
qed

section \<open>parseSignature\<close>

lemma hexChar_digit:
  "\<forall>n \<in> set [0..<16]. digitValue (hexChar n) = Some n \<and> \<not> isWhiteSpace (hexChar n)
      \<and> hexChar n \<noteq> CHR ''+'' \<and> hexChar n \<noteq> CHR ''-''
      \<and> hexChar n \<noteq> CHR ''x'' \<and> hexChar n \<noteq> CHR ''X''"
  by code_simp

lemma hexChar_props:
  assumes "n < 16"
  shows "digitValue (hexChar n) = Some n" "\<not> isWhiteSpace (hexChar n)"
    "hexChar n \<noteq> CHR ''+''" "hexChar n \<noteq> CHR ''-''" "hexChar n \<noteq> CHR ''x''" "hexChar n \<noteq> CHR ''X''"
  using assms hexChar_digit by auto

lemma parseInt16_two_chars:
  assumes "\<not> isWhiteSpace h" and "h \<noteq> CHR ''+''" and "h \<noteq> CHR ''-''"
    and "l \<noteq> CHR ''x''" and "l \<noteq> CHR ''X''"
    and "digitValue h = Some hi" and "digitValue l = Some lo"
  shows "parseInt16 [h, l] = Some (int (16 * hi + lo))"
  using assms by (simp add: parseInt16_def Let_def)

lemma parseInt16_two_digits:
  assumes hi: "hi < 16" and lo: "lo < 16"
  shows "parseInt16 [hexChar hi, hexChar lo] = Some (int (16 * hi + lo))"
  using hexChar_props[OF hi] hexChar_props[OF lo]
  by (intro parseInt16_two_chars)

lemma unat_byte: "unat (b :: 8 word) < 256"
proof -
  have "unat b < 2 ^ LENGTH(8)"
    by (rule unsigned_less)
  then show ?thesis by simp
qed

lemma parseInt16_hexByte: "parseInt16 (hexByte b) = Some (uint b)"
proof -
  have "unat b div 16 < 16" and "unat b mod 16 < 16"
    using unat_byte[of b] by (simp_all add: less_mult_imp_div_less)
  then have "parseInt16 (hexByte b) = Some (int (16 * (unat b div 16) + unat b mod 16))"
    unfolding hexByte_def by (rule parseInt16_two_digits)
  moreover have "16 * (unat b div 16) + unat b mod 16 = unat b"
    by simp
  ultimately show ?thesis
    by (simp only: uint_nat)
qed

lemma length_hex: "length (concat (map hexByte bs)) = 2 * length bs"
  by (induction bs) (simp_all add: hexByte_def)

lemma take_hex: "take (2 * n) (concat (map hexByte bs)) = concat (map hexByte (take n bs))"
proof (induction bs arbitrary: n)
  case Nil
  then show ?case by simp
next
  case (Cons b bs)
  then show ?case by (cases n) (simp_all add: hexByte_def)
qed

lemma drop_hex: "drop (2 * n) (concat (map hexByte bs)) = concat (map hexByte (drop n bs))"
proof (induction bs arbitrary: n)
  case Nil
  then show ?case by simp
next
  case (Cons b bs)
  then show ?case by (cases n) (simp_all add: hexByte_def)
qed

lemma slice_toHex:
  "slice (toHex bs) (2 + 2 * a) (2 + 2 * a + 2 * n) = concat (map hexByte (take n (drop a bs)))"
proof -
  have "slice (toHex bs) (2 + 2 * a) (2 + 2 * a + 2 * n)
      = take (2 * n) (drop (2 * a) (concat (map hexByte bs)))"
    by (simp add: slice_def toHex_def)
  then show ?thesis by (simp add: take_hex drop_hex)
qed

text \<open>
  C7. For every 65-byte signature in hexadecimal notation, parseSignature returns
  \<open>r\<close> = bytes 0..31 and \<open>s\<close> = bytes 32..63, each in hexadecimal notation, and
  \<open>v = 2 * chainId + 35 + recoveryBit\<close>, where the recovery bit is the last byte, less 27
  when that byte is at least 27. So both encodings of the recovery bit give the same
  \<open>v\<close>: 0 and 27 give \<open>2 * chainId + 35\<close>, 1 and 28 give \<open>2 * chainId + 36\<close>.
\<close>

theorem parseSignature_decomposes:
  assumes "length bytes = 65"
  shows "parseSignature (toHex bytes) chainId =
           Inr \<lparr>r = toHex (take 32 bytes), s = toHex (take 32 (drop 32 bytes)),
                v = 2 * chainId + 35
                    + (if 27 \<le> uint (bytes ! 64) then uint (bytes ! 64) - 27 else uint (bytes ! 64))\<rparr>
       \<and> (bytes ! 64 = 0 \<or> bytes ! 64 = 27 \<longrightarrow>
            parseSignature (toHex bytes) chainId =
              Inr \<lparr>r = toHex (take 32 bytes), s = toHex (take 32 (drop 32 bytes)),
                   v = 2 * chainId + 35\<rparr>)
       \<and> (bytes ! 64 = 1 \<or> bytes ! 64 = 28 \<longrightarrow>
            parseSignature (toHex bytes) chainId =
              Inr \<lparr>r = toHex (take 32 bytes), s = toHex (take 32 (drop 32 bytes)),
                   v = 2 * chainId + 35 + 1\<rparr>)"
proof -
  have r': "slice (toHex bytes) 2 66 = concat (map hexByte (take 32 bytes))"
    using slice_toHex[of bytes 0 32] by simp
  have s': "slice (toHex bytes) 66 130 = concat (map hexByte (take 32 (drop 32 bytes)))"
    using slice_toHex[of bytes 32 32] by simp
  have "drop 64 bytes = [bytes ! 64]"
    using assms Cons_nth_drop_Suc[of 64 bytes] by simp
  then have "take 1 (drop 64 bytes) = [bytes ! 64]"
    by simp
  then have "slice (toHex bytes) 130 132 = hexByte (bytes ! 64)"
    using slice_toHex[of bytes 64 1] by simp
  then have p: "parseInt16 (slice (toHex bytes) 130 132) = Some (uint (bytes ! 64))"
    by (simp add: parseInt16_hexByte)
  have main: "parseSignature (toHex bytes) chainId =
           Inr \<lparr>r = toHex (take 32 bytes), s = toHex (take 32 (drop 32 bytes)),
                v = 2 * chainId + 35
                    + (if 27 \<le> uint (bytes ! 64) then uint (bytes ! 64) - 27 else uint (bytes ! 64))\<rparr>"
    unfolding parseSignature_def Let_def r' s' p
    by (simp add: toHex_def)
  show ?thesis
    using main by auto
qed


lemma toHex_sig_bytes:
  "toHex sig_bytes = ''0x'' @ replicate 64 (CHR ''1'') @ replicate 64 (CHR ''2'') @ ''1c''"
  by code_simp

theorem parseSignature_decomposes_witness:
  "length sig_bytes = 65 \<and> (sig_bytes ! 64 = 1 \<or> sig_bytes ! 64 = 28)
   \<and> parseSignature (''0x'' @ replicate 64 (CHR ''1'') @ replicate 64 (CHR ''2'') @ ''1c'') CHAIN_ID
       = Inr \<lparr>r = ''0x'' @ replicate 64 (CHR ''1''), s = ''0x'' @ replicate 64 (CHR ''2''), v = 12722\<rparr>
   \<and> length sig_bytes_27 = 65 \<and> (sig_bytes_27 ! 64 = 0 \<or> sig_bytes_27 ! 64 = 27)
   \<and> parseSignature (toHex sig_bytes_27) CHAIN_ID
       = Inr \<lparr>r = toHex (replicate 32 0), s = toHex (replicate 32 0), v = 12721\<rparr>"
proof -
  have h1: "length sig_bytes = 65"
    by (simp add: sig_bytes_def)
  have l1: "sig_bytes ! 64 = 28"
    by (simp add: sig_bytes_def nth_append)
  have p1: "take 32 sig_bytes = replicate 32 17" "take 32 (drop 32 sig_bytes) = replicate 32 34"
    by (simp_all add: sig_bytes_def)
  have x1: "toHex (replicate 32 17) = ''0x'' @ replicate 64 (CHR ''1'')"
    "toHex (replicate 32 34) = ''0x'' @ replicate 64 (CHR ''2'')"
    by code_simp+
  have h2: "length sig_bytes_27 = 65"
    by (simp add: sig_bytes_27_def)
  have l2: "sig_bytes_27 ! 64 = 27"
    by (simp add: sig_bytes_27_def nth_append)
  have p2: "take 32 sig_bytes_27 = replicate 32 0" "take 32 (drop 32 sig_bytes_27) = replicate 32 0"
    by (simp_all add: sig_bytes_27_def)
  show ?thesis
    using h1 l1 p1 x1 h2 l2 p2 toHex_sig_bytes
      parseSignature_decomposes[OF h1, of CHAIN_ID] parseSignature_decomposes[OF h2, of CHAIN_ID]
    by (simp add: CHAIN_ID_def)
qed

section \<open>Signing warmup\<close>

text \<open>
  C9 (as stated, refuted). Both signing requests of the warmup fail. The promise of
  \<^verbatim>\<open>warmup()\<close> is rejected, but the effect, its only caller, completes normally, as it
  does when the first request is accepted: the failure is left as an unhandled
  rejection and reaches no caller.
\<close>

theorem warmup_failure_reaches_no_caller_counterexample:
  "fst (warmup (Inr failing_provider)) = Inl (Error ''signing timed out'')
   \<and> useSigningWarmup_effect [privy_wallet] (Inr failing_provider)
       = (Inr (), [GetProvider, Sleep 100, Sign dummyHash, Sleep 500, Sign dummyHash],
          [Error ''signing timed out''])
   \<and> fst (useSigningWarmup_effect [privy_wallet] (Inr accepting_provider)) = Inr ()"
  by (simp add: useSigningWarmup_effect_def warmup_def failing_provider_def
      accepting_provider_def privy_wallet_def)

text \<open>
  C9 (amended). When the first signing request of the warmup fails, the warmup waits
  500 ms and makes exactly one more signing request, two in all. When that one fails
  too, the promise of \<^verbatim>\<open>warmup()\<close> is rejected with its error; the effect that called
  \<^verbatim>\<open>warmup()\<close> neither awaits nor catches it, so the effect completes normally and the
  error is left as an unhandled rejection.
\<close>

theorem warmup_retries_once_then_rejects_unhandled:
  assumes "provider 0 dummyHash = Inl e1"
  shows "snd (warmup (Inr provider))
           = [GetProvider, Sleep 100, Sign dummyHash, Sleep 500, Sign dummyHash]
       \<and> length (filter (\<lambda>a. a = Sign dummyHash) (snd (warmup (Inr provider)))) = 2
       \<and> (\<forall>e2. provider 1 dummyHash = Inl e2 \<longrightarrow>
             fst (warmup (Inr provider)) = Inl e2
             \<and> (find (\<lambda>w. walletClientType w = ''privy'') wallets \<noteq> None \<longrightarrow>
                  useSigningWarmup_effect wallets (Inr provider)
                    = (Inr (), [GetProvider, Sleep 100, Sign dummyHash, Sleep 500, Sign dummyHash],
                       [e2])))"
  using assms
  by (auto simp: warmup_def useSigningWarmup_effect_def split: sum.splits option.splits)

theorem warmup_retries_once_then_rejects_unhandled_witness:
  "failing_provider 0 dummyHash = Inl (Error ''wallet not ready'')
   \<and> failing_provider 1 dummyHash = Inl (Error ''signing timed out'')
   \<and> find (\<lambda>w. walletClientType w = ''privy'') [privy_wallet] \<noteq> None
   \<and> warmup (Inr failing_provider)
       = (Inl (Error ''signing timed out''),
          [GetProvider, Sleep 100, Sign dummyHash, Sleep 500, Sign dummyHash])
   \<and> snd (snd (useSigningWarmup_effect [privy_wallet] (Inr failing_provider)))
       = [Error ''signing timed out'']"
proof -
  have h1: "failing_provider 0 dummyHash = Inl (Error ''wallet not ready'')"
    by (simp add: failing_provider_def)
  have h2: "failing_provider 1 dummyHash = Inl (Error ''signing timed out'')"
    by (simp add: failing_provider_def)
  have h3: "find (\<lambda>w. walletClientType w = ''privy'') [privy_wallet] \<noteq> None"
    by (simp add: privy_wallet_def)
  show ?thesis
    using h1 h2 h3
      warmup_retries_once_then_rejects_unhandled[of failing_provider "Error ''wallet not ready''"
        "[privy_wallet]"]
    by (simp add: prod_eq_iff)
qed

text \<open>
  C8 (as stated, refuted). The effect of useMegaETHTransaction runs twice before the
  first warmup has finished: both runs pass the test of \<^verbatim>\<open>isWarmedUp\<close>, two warmups
  are in flight, and two signing requests reach the provider.
\<close>

theorem concurrent_effects_sign_twice_counterexample:
  "signRequests (hook_run two_effects new_hook) = [dummyHash, dummyHash]
   \<and> warmups (hook_run two_effects new_hook) = [AwaitSign, AwaitSign]"
  by (simp add: two_effects_def hook_run_def new_hook_def privy_wallet_def useEffect_def
      providerSettled_def blockNumberSettled_def timerFired_def)

lemma hook_run_append: "hook_run (xs @ ys) h = hook_run ys (hook_run xs h)"
  by (simp add: hook_run_def)

lemma effects_start:
  assumes "find (\<lambda>w. walletClientType w = ''privy'') wallets \<noteq> None" and "\<not> isWarmedUp h"
  shows "hook_run (replicate n (Effect wallets)) h = h\<lparr>warmups := warmups h @ replicate n AwaitProvider\<rparr>"
  using assms
proof (induction n arbitrary: h)
  case 0
  then show ?case by (simp add: hook_run_def)
next
  case (Suc n)
  have "useEffect wallets h = h\<lparr>warmups := warmups h @ [AwaitProvider]\<rparr>"
    using Suc.prems by (auto simp: useEffect_def)
  moreover have "hook_run (replicate n (Effect wallets)) (h\<lparr>warmups := warmups h @ [AwaitProvider]\<rparr>)
     = (h\<lparr>warmups := warmups h @ [AwaitProvider]\<rparr>)\<lparr>warmups := 
          warmups (h\<lparr>warmups := warmups h @ [AwaitProvider]\<rparr>) @ replicate n AwaitProvider\<rparr>"
    using Suc.prems by (intro Suc.IH) simp_all
  ultimately show ?case
    by (simp add: hook_run_def replicate_app_Cons_same)
qed

lemma drive_one:
  assumes "i < length (warmups h)" and "warmups h ! i = AwaitProvider"
  shows "hook_run (drive i) h
       = h\<lparr>warmups := (warmups h)[i := AwaitSign], signRequests := signRequests h @ [dummyHash]\<rparr>"
  using assms
  by (simp add: drive_def hook_run_def providerSettled_def blockNumberSettled_def timerFired_def)

lemma update_front:
  "k < n \<Longrightarrow> (replicate k y @ replicate (n - k) x)[k := y] = replicate (Suc k) y @ replicate (n - Suc k) x"
proof -
  assume "k < n"
  then have "replicate (n - k) x = x # replicate (n - Suc k) x"
    by (metis Suc_diff_Suc replicate_Suc)
  then show ?thesis
    by (simp add: list_update_append replicate_append_same)
qed

lemma drive_all:
  assumes "k \<le> n" and "warmups h = replicate n AwaitProvider"
  shows "hook_run (concat (map drive [0..<k])) h
       = h\<lparr>warmups := replicate k AwaitSign @ replicate (n - k) AwaitProvider,
            signRequests := signRequests h @ replicate k dummyHash\<rparr>"
  using assms
proof (induction k)
  case 0
  then show ?case by (simp add: hook_run_def)
next
  case (Suc k)
  let ?h = "h\<lparr>warmups := replicate k AwaitSign @ replicate (n - k) AwaitProvider,
            signRequests := signRequests h @ replicate k dummyHash\<rparr>"
  have "hook_run (concat (map drive [0..<k])) h = ?h"
    using Suc by simp
  moreover have "hook_run (drive k) ?h
      = ?h\<lparr>warmups := (warmups ?h)[k := AwaitSign], signRequests := signRequests ?h @ [dummyHash]\<rparr>"
    using Suc.prems by (intro drive_one) (simp_all add: nth_append)
  ultimately show ?case
    using Suc.prems update_front[of k n AwaitSign AwaitProvider]
    by (simp add: hook_run_append replicate_append_same)
qed

text \<open>
  C8 (amended). A run of the warmup effect of useMegaETHTransaction that finds
  \<^verbatim>\<open>isWarmedUp\<close> true starts no warmup. A run with a Privy wallet that finds it false
  starts a warmup of its own, and a warmup once started makes its signing request when
  its timer fires, whatever \<^verbatim>\<open>isWarmedUp\<close> is by then: \<open>n\<close> runs with a Privy wallet,
  all in flight together, whose provider and block-number requests succeed, make \<open>n\<close>
  signing requests, while \<^verbatim>\<open>isWarmedUp\<close> is still false. The effect of useSigningWarmup has no such test: each of its runs with a Privy
  wallet and a provider makes a signing request.
\<close>

theorem warmup_guard_only_after_completion:
  "(isWarmedUp h \<longrightarrow> useEffect wallets h = h)
   \<and> (\<not> isWarmedUp h \<and> find (\<lambda>w. walletClientType w = ''privy'') wallets \<noteq> None \<longrightarrow>
        useEffect wallets h = h\<lparr>warmups := warmups h @ [AwaitProvider]\<rparr>)
   \<and> (i < length (warmups h) \<and> warmups h ! i = Sleeping \<longrightarrow>
        signRequests (timerFired i h) = signRequests h @ [dummyHash])
   \<and> (find (\<lambda>w. walletClientType w = ''privy'') wallets \<noteq> None \<longrightarrow>
        signRequests (hook_run (replicate n (Effect wallets) @ concat (map drive [0..<n])) new_hook)
          = replicate n dummyHash
        \<and> \<not> isWarmedUp (hook_run (replicate n (Effect wallets) @ concat (map drive [0..<n])) new_hook)
        \<and> Sign dummyHash \<in> set (fst (snd (useSigningWarmup_effect wallets (Inr provider)))))"
proof (intro conjI impI)
  assume "isWarmedUp h"
  then show "useEffect wallets h = h"
    by (simp add: useEffect_def split: option.splits)
next
  assume "\<not> isWarmedUp h \<and> find (\<lambda>w. walletClientType w = ''privy'') wallets \<noteq> None"
  then show "useEffect wallets h = h\<lparr>warmups := warmups h @ [AwaitProvider]\<rparr>"
    by (auto simp: useEffect_def)
next
  assume "i < length (warmups h) \<and> warmups h ! i = Sleeping"
  then show "signRequests (timerFired i h) = signRequests h @ [dummyHash]"
    by (simp add: timerFired_def)
next
  assume w: "find (\<lambda>w. walletClientType w = ''privy'') wallets \<noteq> None"
  let ?started = "hook_run (replicate n (Effect wallets)) new_hook"
  have st: "?started = new_hook\<lparr>warmups := replicate n AwaitProvider\<rparr>"
    using effects_start[OF w, of new_hook n] by (simp add: new_hook_def)
  let ?h = "new_hook\<lparr>warmups := replicate n AwaitProvider\<rparr>"
  have "hook_run (concat (map drive [0..<n])) ?h
      = ?h\<lparr>warmups := replicate n AwaitSign @ replicate (n - n) AwaitProvider,
            signRequests := signRequests ?h @ replicate n dummyHash\<rparr>"
    by (intro drive_all) simp_all
  then have "hook_run (concat (map drive [0..<n])) ?h
      = new_hook\<lparr>warmups := replicate n AwaitSign, signRequests := replicate n dummyHash\<rparr>"
    by (simp add: new_hook_def)
  then have fin: "hook_run (replicate n (Effect wallets) @ concat (map drive [0..<n])) new_hook
      = new_hook\<lparr>warmups := replicate n AwaitSign, signRequests := replicate n dummyHash\<rparr>"
    by (simp only: hook_run_append st)
  show "signRequests (hook_run (replicate n (Effect wallets) @ concat (map drive [0..<n])) new_hook)
          = replicate n dummyHash"
    by (simp add: fin)
  show "\<not> isWarmedUp (hook_run (replicate n (Effect wallets) @ concat (map drive [0..<n])) new_hook)"
    by (simp only: fin) (simp add: new_hook_def)
  show "Sign dummyHash \<in> set (fst (snd (useSigningWarmup_effect wallets (Inr provider))))"
    using w by (auto simp: useSigningWarmup_effect_def warmup_def split: option.splits sum.splits)
qed

lemma ready_hook_eq:
  "ready_hook = \<lparr>isWarmedUp = True, warmups = [Ready], signRequests = [dummyHash]\<rparr>"
  by (simp add: ready_hook_def hook_run_def new_hook_def privy_wallet_def useEffect_def
      providerSettled_def blockNumberSettled_def timerFired_def signSettled_def)

lemma late_hook_eq:
  "late_hook = \<lparr>isWarmedUp = True, warmups = [Ready, Sleeping], signRequests = [dummyHash]\<rparr>"
  by (simp add: late_hook_def hook_run_def new_hook_def privy_wallet_def useEffect_def
      providerSettled_def blockNumberSettled_def timerFired_def signSettled_def)

theorem warmup_guard_only_after_completion_witness:
  "isWarmedUp ready_hook \<and> useEffect [privy_wallet] ready_hook = ready_hook
   \<and> \<not> isWarmedUp new_hook \<and> find (\<lambda>w. walletClientType w = ''privy'') [privy_wallet] \<noteq> None
   \<and> warmups (useEffect [privy_wallet] new_hook) = [AwaitProvider]
   \<and> isWarmedUp late_hook \<and> 1 < length (warmups late_hook) \<and> warmups late_hook ! 1 = Sleeping
   \<and> signRequests (timerFired 1 late_hook) = [dummyHash, dummyHash]
   \<and> signRequests (hook_run (replicate 3 (Effect [privy_wallet]) @ concat (map drive [0..<3]))
        new_hook) = [dummyHash, dummyHash, dummyHash]"
proof -
  have h1: "isWarmedUp ready_hook"
    by (simp add: ready_hook_eq)
  have h2: "find (\<lambda>w. walletClientType w = ''privy'') [privy_wallet] \<noteq> None"
    by (simp add: privy_wallet_def)
  have h3: "\<not> isWarmedUp new_hook"
    by (simp add: new_hook_def)
  have h4: "isWarmedUp late_hook" "1 < length (warmups late_hook)" "warmups late_hook ! 1 = Sleeping"
    "signRequests late_hook = [dummyHash]"
    by (simp_all add: late_hook_eq)
  have n: "warmups new_hook = []"
    by (simp add: new_hook_def)
  have "replicate 3 dummyHash = [dummyHash, dummyHash, dummyHash]"
    by (simp add: numeral_3_eq_3)
  then show ?thesis
    using h1 h2 h3 h4 n
      warmup_guard_only_after_completion[of ready_hook "[privy_wallet]" 0 3]
      warmup_guard_only_after_completion[of new_hook "[privy_wallet]" 0 3]
      warmup_guard_only_after_completion[of late_hook "[privy_wallet]" 1 3]
    by simp
qed

end
